theory Spec2Isabelle
  imports Complex_Main "HOL-Library.Sublist"
begin

section \<open>Figure extraction from PDF pages: a model of \<^verbatim>\<open>ragntex_processing.py\<close>\<close>

text \<open>
  Page coordinates are Python floats in the source; they are modelled as real
  numbers, so rounding is outside this development. Exceptions are values of
  \<open>py_error\<close>; a function that can raise returns a sum with the error on the
  left. The interpreter's recursion limit is a parameter \<open>depth\<close> of the functions
  that reach the recursive traversal: the number of nested calls of \<^verbatim>\<open>dfs\<close> that
  the limit leaves room for where \<^verbatim>\<open>group_bounding_boxes\<close> runs. The other calls
  nest to a fixed small depth and are taken to fit.
\<close>

datatype py_error = IndexError | TypeError | ZeroDivisionError | RecursionError | RenderError

subsection \<open>Rectangles\<close>

text \<open>
  The rectangle class belongs to the PDF library, which is not part of the
  repository. It is a sequence of four coordinates \<open>(x0, y0, x1, y1)\<close>.
\<close>

record rect =
  x0 :: real
  y0 :: real
  x1 :: real
  y1 :: real

text \<open>
  Modelled from the spec: the library's \<^verbatim>\<open>rect + (a, b, c, d)\<close>, which the spec
  describes as expansion by a fixed margin on all sides; the four numbers are
  added to the four coordinates.
\<close>

definition rect_add :: "rect \<Rightarrow> real \<times> real \<times> real \<times> real \<Rightarrow> rect" where
  "rect_add r t =
     (case t of (a, b, c, d) \<Rightarrow>
        \<lparr>x0 = x0 r + a, y0 = y0 r + b, x1 = x1 r + c, y1 = y1 r + d\<rparr>)"

text \<open>
  Modelled from the spec: the library's union operator \<^verbatim>\<open>a | b\<close>, which the spec
  describes as the smallest enclosing rectangle of the two operands.
\<close>

definition rect_union :: "rect \<Rightarrow> rect \<Rightarrow> rect" where
  "rect_union a b =
     \<lparr>x0 = min (x0 a) (x0 b), y0 = min (y0 a) (y0 b),
      x1 = max (x1 a) (x1 b), y1 = max (y1 a) (y1 b)\<rparr>"

text \<open>
  The truth value of a rectangle object, as the library defines it: false only
  for the rectangle whose four coordinates are all zero.
\<close>

definition rect_bool :: "rect \<Rightarrow> bool" where
  "rect_bool r = (\<not> (x0 r = 0 \<and> y0 r = 0 \<and> x1 r = 0 \<and> y1 r = 0))"

text \<open>The rectangle \<open>rect + (-threshold, -threshold, threshold, threshold)\<close>.\<close>

definition expanded :: "rect \<Rightarrow> real \<Rightarrow> rect" where
  "expanded r threshold = rect_add r (- threshold, - threshold, threshold, threshold)"

subsection \<open>\<^verbatim>\<open>are_bounding_boxes_close\<close>\<close>

definition are_bounding_boxes_close :: "rect \<Rightarrow> rect \<Rightarrow> real \<Rightarrow> bool" where
  "are_bounding_boxes_close bbox1 bbox2 threshold =
     (\<bar>x0 bbox1 - x1 bbox2\<bar> < threshold
      \<or> \<bar>x1 bbox1 - x0 bbox2\<bar> < threshold
      \<or> \<bar>y0 bbox1 - y1 bbox2\<bar> < threshold
      \<or> \<bar>y1 bbox1 - y0 bbox2\<bar> < threshold)"

subsection \<open>\<^verbatim>\<open>merge_bounding_boxes\<close>\<close>

text \<open>The loop \<^verbatim>\<open>for bbox in bboxes[1:]: combined_bbox = combined_bbox | bbox\<close>.\<close>

fun merge_loop :: "rect \<Rightarrow> rect list \<Rightarrow> rect" where
  "merge_loop combined_bbox [] = combined_bbox"
| "merge_loop combined_bbox (bbox # rest) = merge_loop (rect_union combined_bbox bbox) rest"

fun merge_bounding_boxes :: "rect list \<Rightarrow> rect option" where
  "merge_bounding_boxes [] = None"
| "merge_bounding_boxes (first # rest) = Some (merge_loop first rest)"

subsection \<open>The spatial index\<close>

text \<open>
  Modelled from the spec: the spatial index is a library of its own, not part
  of the repository. An entry is an identifier with a rectangle; a query
  returns the identifiers of all entries whose rectangle intersects the query
  rectangle, boundaries included. Entries are kept in insertion order.
\<close>

type_synonym spatial_index = "(nat \<times> rect) list"

definition boxes_intersect :: "rect \<Rightarrow> rect \<Rightarrow> bool" where
  "boxes_intersect a b =
     (x0 a \<le> x1 b \<and> x0 b \<le> x1 a \<and> y0 a \<le> y1 b \<and> y0 b \<le> y1 a)"

definition index_insert :: "spatial_index \<Rightarrow> nat \<Rightarrow> rect \<Rightarrow> spatial_index" where
  "index_insert idx i r = idx @ [(i, r)]"

definition index_intersection :: "spatial_index \<Rightarrow> rect \<Rightarrow> nat list" where
  "index_intersection idx q = map fst (filter (\<lambda>e. boxes_intersect (snd e) q) idx)"

subsection \<open>\<^verbatim>\<open>group_bounding_boxes\<close>: the proximity graph\<close>

text \<open>The first loop: every rectangle is inserted under its position, expanded.\<close>

definition build_index :: "rect list \<Rightarrow> real \<Rightarrow> spatial_index" where
  "build_index bboxes threshold =
     foldl (\<lambda>idx ir. index_insert idx (fst ir) (expanded (snd ir) threshold))
       [] (enumerate 0 bboxes)"

text \<open>
  The second loop. The adjacency list is a dictionary whose missing keys read
  as the empty list, hence a function from positions to lists.
\<close>

definition add_neighbors :: "nat \<Rightarrow> (nat \<Rightarrow> nat list) \<Rightarrow> nat list \<Rightarrow> (nat \<Rightarrow> nat list)" where
  "add_neighbors i adj_list js =
     foldl (\<lambda>adj j. if i \<noteq> j then adj(i := adj i @ [j]) else adj) adj_list js"

definition build_adj_list :: "rect list \<Rightarrow> spatial_index \<Rightarrow> real \<Rightarrow> (nat \<Rightarrow> nat list)" where
  "build_adj_list bboxes idx threshold =
     foldl (\<lambda>adj ir. add_neighbors (fst ir) adj
                        (index_intersection idx (expanded (snd ir) threshold)))
       (\<lambda>_. []) (enumerate 0 bboxes)"

subsection \<open>\<^verbatim>\<open>group_bounding_boxes\<close>: the traversal\<close>

text \<open>
  The nested function \<^verbatim>\<open>dfs\<close> with its loop over the neighbours. The state is
  the \<^verbatim>\<open>visited\<close> array together with the component under construction. A
  call that the recursion limit leaves no room for raises \<^verbatim>\<open>RecursionError\<close>; a
  position outside \<^verbatim>\<open>visited\<close> or \<^verbatim>\<open>bboxes\<close> raises \<^verbatim>\<open>IndexError\<close>.
\<close>

type_synonym 'a dfs_state = "bool list \<times> 'a list"

fun dfs :: "nat \<Rightarrow> 'a list \<Rightarrow> (nat \<Rightarrow> nat list) \<Rightarrow> nat \<Rightarrow> 'a dfs_state \<Rightarrow> py_error + 'a dfs_state"
  and dfs_for :: "nat \<Rightarrow> 'a list \<Rightarrow> (nat \<Rightarrow> nat list) \<Rightarrow> nat list \<Rightarrow> 'a dfs_state \<Rightarrow> py_error + 'a dfs_state"
  where
  "dfs 0 bboxes adj_list node s = Inl RecursionError"
| "dfs (Suc depth) bboxes adj_list node (visited, component) =
     (if node < length visited \<and> node < length bboxes
      then dfs_for depth bboxes adj_list (adj_list node)
             (visited[node := True], component @ [bboxes ! node])
      else Inl IndexError)"
| "dfs_for depth bboxes adj_list [] s = Inr s"
| "dfs_for depth bboxes adj_list (neighbor # rest) (visited, component) =
     (if neighbor < length visited
      then (if \<not> visited ! neighbor
            then (case dfs depth bboxes adj_list neighbor (visited, component) of
                    Inl e \<Rightarrow> Inl e
                  | Inr s' \<Rightarrow> dfs_for depth bboxes adj_list rest s')
            else dfs_for depth bboxes adj_list rest (visited, component))
      else Inl IndexError)"

text \<open>
  The loop \<^verbatim>\<open>for i in range(len(bboxes))\<close>: an unvisited position starts a new
  component, which is appended to \<^verbatim>\<open>components\<close> once the traversal returns.
\<close>

fun find_components ::
  "nat \<Rightarrow> 'a list \<Rightarrow> (nat \<Rightarrow> nat list) \<Rightarrow> nat list \<Rightarrow> bool list \<Rightarrow> 'a list list
     \<Rightarrow> py_error + 'a list list"
  where
  "find_components depth bboxes adj_list [] visited components = Inr components"
| "find_components depth bboxes adj_list (i # rest) visited components =
     (if i < length visited
      then (if \<not> visited ! i
            then (case dfs depth bboxes adj_list i (visited, []) of
                    Inl e \<Rightarrow> Inl e
                  | Inr s' \<Rightarrow>
                      find_components depth bboxes adj_list rest (fst s') (components @ [snd s']))
            else find_components depth bboxes adj_list rest visited components)
      else Inl IndexError)"

text \<open>
  The traversal part of \<^verbatim>\<open>group_bounding_boxes\<close>, over any list of payloads:
  run on \<^verbatim>\<open>bboxes\<close> it yields \<^verbatim>\<open>components\<close>; run on the positions themselves it
  yields the positions that each component holds.
\<close>

definition traverse :: "nat \<Rightarrow> 'a list \<Rightarrow> (nat \<Rightarrow> nat list) \<Rightarrow> py_error + 'a list list" where
  "traverse depth bboxes adj_list =
     find_components depth bboxes adj_list [0..<length bboxes]
       (replicate (length bboxes) False) []"

definition proximity_graph :: "rect list \<Rightarrow> real \<Rightarrow> (nat \<Rightarrow> nat list)" where
  "proximity_graph bboxes threshold =
     build_adj_list bboxes (build_index bboxes threshold) threshold"

definition group_components :: "nat \<Rightarrow> rect list \<Rightarrow> real \<Rightarrow> py_error + rect list list" where
  "group_components depth bboxes threshold =
     traverse depth bboxes (proximity_graph bboxes threshold)"

definition component_indices :: "nat \<Rightarrow> rect list \<Rightarrow> real \<Rightarrow> py_error + nat list list" where
  "component_indices depth bboxes threshold =
     traverse depth [0..<length bboxes] (proximity_graph bboxes threshold)"

text \<open>
  The function itself; its parameter \<^verbatim>\<open>max_drawings\<close> is never read and is left
  out. The result holds what \<^verbatim>\<open>merge_bounding_boxes\<close> returns for each component.
\<close>

definition group_bounding_boxes :: "nat \<Rightarrow> rect list \<Rightarrow> real \<Rightarrow> py_error + rect option list" where
  "group_bounding_boxes depth bboxes threshold =
     (case group_components depth bboxes threshold of
        Inl e \<Rightarrow> Inl e
      | Inr components \<Rightarrow> Inr (map merge_bounding_boxes components))"

subsection \<open>\<^verbatim>\<open>process_large_drawing\<close>\<close>

text \<open>
  A drawing is a dictionary; only its entry \<^verbatim>\<open>"rect"\<close> is read, so a drawing is
  modelled by what \<^verbatim>\<open>d.get("rect")\<close> returns.
\<close>

type_synonym drawing = "rect option"

definition drawing_truthy :: "drawing \<Rightarrow> bool" where
  "drawing_truthy d = (case d of None \<Rightarrow> False | Some r \<Rightarrow> rect_bool r)"

definition drawing_bboxes :: "drawing list \<Rightarrow> rect list" where
  "drawing_bboxes drawings = List.map_filter (\<lambda>d. if drawing_truthy d then d else None) drawings"

text \<open>Rectangles are needed where an optional rectangle is passed on.\<close>

definition as_rects :: "rect option list \<Rightarrow> py_error + rect list" where
  "as_rects rs = (case those rs of None \<Rightarrow> Inl TypeError | Some bboxes \<Rightarrow> Inr bboxes)"

fun group_chunks ::
  "nat \<Rightarrow> rect list \<Rightarrow> nat \<Rightarrow> real \<Rightarrow> nat list \<Rightarrow> rect option list
     \<Rightarrow> py_error + rect option list"
  where
  "group_chunks depth bboxes max_drawings threshold [] all_results = Inr all_results"
| "group_chunks depth bboxes max_drawings threshold (chunk_index # rest) all_results =
     (let chunk = take max_drawings (drop (chunk_index * max_drawings) bboxes)
      in case group_bounding_boxes depth chunk threshold of
           Inl e \<Rightarrow> Inl e
         | Inr results \<Rightarrow>
             group_chunks depth bboxes max_drawings threshold rest (all_results @ results))"

definition process_large_drawing ::
  "nat \<Rightarrow> drawing list \<Rightarrow> nat \<Rightarrow> real \<Rightarrow> py_error + rect option list" where
  "process_large_drawing depth drawings max_drawings threshold =
     (let bboxes = drawing_bboxes drawings in
      if length bboxes < max_drawings then group_bounding_boxes depth bboxes threshold
      else if max_drawings = 0 then Inl ZeroDivisionError
      else
        (let num_chunks = length bboxes div max_drawings + 1 in
         case group_chunks depth bboxes max_drawings threshold [0..<num_chunks] [] of
           Inl e \<Rightarrow> Inl e
         | Inr all_results \<Rightarrow>
             (case as_rects all_results of
                Inl e \<Rightarrow> Inl e
              | Inr rs \<Rightarrow> group_bounding_boxes depth rs threshold)))"

subsection \<open>\<^verbatim>\<open>find_surrounding_text\<close>\<close>

text \<open>
  A text block carries a type tag and a bounding box. The intersection test
  \<^verbatim>\<open>expanded.intersects(block_rect)\<close> is the library's and is taken as a parameter.
\<close>

record block =
  block_type :: int
  bbox :: rect

fun surrounding_for :: "(rect \<Rightarrow> rect \<Rightarrow> bool) \<Rightarrow> rect \<Rightarrow> block list \<Rightarrow> rect list \<Rightarrow> rect list" where
  "surrounding_for intersects expanded_group [] surrounding = surrounding"
| "surrounding_for intersects expanded_group (blk # rest) surrounding =
     (if block_type blk \<noteq> 0 then surrounding_for intersects expanded_group rest surrounding
      else if intersects expanded_group (bbox blk)
      then surrounding_for intersects expanded_group rest (surrounding @ [bbox blk])
      else surrounding_for intersects expanded_group rest surrounding)"

definition find_surrounding_text ::
  "(rect \<Rightarrow> rect \<Rightarrow> bool) \<Rightarrow> block list \<Rightarrow> rect \<Rightarrow> real \<Rightarrow> rect list" where
  "find_surrounding_text intersects blocks grp threshold =
     surrounding_for intersects (expanded grp threshold) blocks []"

subsection \<open>\<^verbatim>\<open>extract_vector\<close>\<close>

definition MAX_DRAWINGS :: nat where "MAX_DRAWINGS = 1000"
definition MIN_SIZE :: real where "MIN_SIZE = 0.05"
definition MAX_SIZE :: real where "MAX_SIZE = 0.30"
definition THRESHOLD :: real where "THRESHOLD = 5"

text \<open>
  What the function reads from a page: its width and height, its drawings, its
  text blocks, and the rendering of a clip rectangle at the fixed zoom as PNG
  bytes, which may fail.
\<close>

record page =
  page_width :: real
  page_height :: real
  get_drawings :: "drawing list"
  text_blocks :: "block list"
  get_pixmap :: "rect \<Rightarrow> py_error + string"

text \<open>Decimal digits of a number, as an f-string prints it.\<close>

function str_nat :: "nat \<Rightarrow> string" where
  "str_nat n =
     (if n < 10 then [''0123456789'' ! n]
      else str_nat (n div 10) @ [''0123456789'' ! (n mod 10)])"
  by pat_completeness auto
termination
  by (relation "measure (\<lambda>n. n)") auto

declare str_nat.simps [simp del]

definition figure_name :: "nat \<Rightarrow> nat \<Rightarrow> string \<Rightarrow> string" where
  "figure_name page_num group_num figure_hash =
     ''page'' @ str_nat page_num @ ''_fig'' @ str_nat group_num
       @ ''_hash'' @ take 8 figure_hash @ ''.png''"

text \<open>The rectangle of a figure: the group with the text around it, if any.\<close>

definition figure_bbox ::
  "(rect \<Rightarrow> rect \<Rightarrow> bool) \<Rightarrow> block list \<Rightarrow> rect \<Rightarrow> rect option" where
  "figure_bbox intersects blocks grp =
     (let surrounding = find_surrounding_text intersects blocks grp THRESHOLD
      in if surrounding \<noteq> [] then merge_bounding_boxes ([grp] @ surrounding)
         else Some grp)"

text \<open>The filter \<^verbatim>\<open>area > min_size and area < max_size\<close>.\<close>

definition size_filter :: "real \<Rightarrow> real \<Rightarrow> rect \<Rightarrow> bool" where
  "size_filter min_size max_size fb =
     (let width = x1 fb - x0 fb;
          height = y1 fb - y0 fb;
          area = width * height
      in area > min_size \<and> area < max_size)"

text \<open>
  The files written so far are a list of names with their bytes, in the order
  of writing. The loop over the groups returns them together with the
  exception that ended it, if one did. The digest is a parameter.
\<close>

type_synonym artifact = "string \<times> string"

fun extract_vector_for ::
  "(rect \<Rightarrow> rect \<Rightarrow> bool) \<Rightarrow> (string \<Rightarrow> string) \<Rightarrow> page \<Rightarrow> nat \<Rightarrow> real \<Rightarrow> real
     \<Rightarrow> (nat \<times> rect option) list \<Rightarrow> artifact list \<Rightarrow> artifact list \<times> py_error option"
  where
  "extract_vector_for intersects md5 pg page_num min_size max_size [] files = (files, None)"
| "extract_vector_for intersects md5 pg page_num min_size max_size ((group_num, grp) # rest) files =
     (case grp of
        None \<Rightarrow> (files, Some TypeError)
      | Some g \<Rightarrow>
          (case figure_bbox intersects (text_blocks pg) g of
             None \<Rightarrow> (files, Some TypeError)
           | Some fb \<Rightarrow>
               if size_filter min_size max_size fb
               then (case get_pixmap pg fb of
                       Inl e \<Rightarrow> (files, Some e)
                     | Inr figure_bytes \<Rightarrow>
                         extract_vector_for intersects md5 pg page_num min_size max_size rest
                           (files @ [(figure_name page_num group_num (md5 figure_bytes),
                                      figure_bytes)]))
               else extract_vector_for intersects md5 pg page_num min_size max_size rest files))"

definition extract_vector ::
  "nat \<Rightarrow> (rect \<Rightarrow> rect \<Rightarrow> bool) \<Rightarrow> (string \<Rightarrow> string) \<Rightarrow> page \<Rightarrow> nat
     \<Rightarrow> artifact list \<Rightarrow> artifact list \<times> py_error option" where
  "extract_vector depth intersects md5 pg page_num files =
     (let page_size = page_width pg * page_height pg;
          min_size = page_size * MIN_SIZE;
          max_size = page_size * MAX_SIZE
      in case process_large_drawing depth (get_drawings pg) MAX_DRAWINGS THRESHOLD of
           Inl e \<Rightarrow> (files, Some e)
         | Inr grouped \<Rightarrow>
             extract_vector_for intersects md5 pg page_num min_size max_size
               (enumerate 0 grouped) files)"

subsection \<open>\<^verbatim>\<open>extract_pdf_ragntex\<close>: the text of the document\<close>

text \<open>
  The method \<^verbatim>\<open>str.strip\<close> removes leading and trailing whitespace. A
  character stands for a code point below 256; the whitespace among these is
  the tab to the carriage return, the four separators from 0x1C, the space,
  the next-line character 0x85 and the no-break space 0xA0.
\<close>

definition is_space :: "char \<Rightarrow> bool" where
  "is_space c = (c \<in> set [CHR 0x09, CHR 0x0A, CHR 0x0B, CHR 0x0C, CHR 0x0D,
                           CHR 0x1C, CHR 0x1D, CHR 0x1E, CHR 0x1F, CHR '' '',
                           CHR 0x85, CHR 0xA0])"

definition strip :: "string \<Rightarrow> string" where
  "strip s = rev (dropWhile is_space (rev (dropWhile is_space s)))"

text \<open>The method \<^verbatim>\<open>sep.join(parts)\<close>.\<close>

fun join :: "string \<Rightarrow> string list \<Rightarrow> string" where
  "join sep [] = []"
| "join sep [part] = part"
| "join sep (part # rest) = part @ sep @ join sep rest"

text \<open>
  The loop over the pages, given the plain text of each page in page order,
  and the content written to the text file after it. The file is written
  when no page has raised an exception.
\<close>

fun text_for :: "string \<Rightarrow> string list \<Rightarrow> string" where
  "text_for text [] = text"
| "text_for text (page_text # rest) = text_for (join '' '' [text, strip page_text]) rest"

definition written_text :: "string list \<Rightarrow> string" where
  "written_text page_texts = text_for [] page_texts"

subsection \<open>Notions used by the properties\<close>

text \<open>
  Containment of one rectangle in another, edge by edge; a rectangle as the
  data model wants it (left before right, top before bottom); its corners; a
  point inside a rectangle, boundary included.
\<close>

definition rect_contains :: "rect \<Rightarrow> rect \<Rightarrow> bool" where
  "rect_contains outer inner =
     (x0 outer \<le> x0 inner \<and> y0 outer \<le> y0 inner \<and> x1 inner \<le> x1 outer \<and> y1 inner \<le> y1 outer)"

definition well_formed :: "rect \<Rightarrow> bool" where
  "well_formed r = (x0 r \<le> x1 r \<and> y0 r \<le> y1 r)"

definition corners :: "rect \<Rightarrow> (real \<times> real) list" where
  "corners r = [(x0 r, y0 r), (x1 r, y0 r), (x0 r, y1 r), (x1 r, y1 r)]"

definition point_in :: "rect \<Rightarrow> real \<times> real \<Rightarrow> bool" where
  "point_in r p = (x0 r \<le> fst p \<and> fst p \<le> x1 r \<and> y0 r \<le> snd p \<and> snd p \<le> y1 r)"

text \<open>The area that the filter of \<^verbatim>\<open>extract_vector\<close> computes.\<close>

definition figure_area :: "rect \<Rightarrow> real" where
  "figure_area fb = (x1 fb - x0 fb) * (y1 fb - y0 fb)"

text \<open>
  The distance between two rectangles along an axis, edge to edge: negative
  when their extents on that axis overlap. The relation that the specification
  takes for adjacency asks for a distance below the threshold on each axis.
\<close>

definition axis_gap_x :: "rect \<Rightarrow> rect \<Rightarrow> real" where
  "axis_gap_x a b = max (x0 b - x1 a) (x0 a - x1 b)"

definition axis_gap_y :: "rect \<Rightarrow> rect \<Rightarrow> real" where
  "axis_gap_y a b = max (y0 b - y1 a) (y0 a - y1 b)"

definition gap_adjacent :: "real \<Rightarrow> rect \<Rightarrow> rect \<Rightarrow> bool" where
  "gap_adjacent threshold a b = (axis_gap_x a b < threshold \<and> axis_gap_y a b < threshold)"

text \<open>
  The positions marked in \<^verbatim>\<open>visited\<close>, those not marked, and the edges of an
  adjacency list.
\<close>

definition visited_set :: "bool list \<Rightarrow> nat set" where
  "visited_set visited = {i. i < length visited \<and> visited ! i}"

definition unvisited_set :: "bool list \<Rightarrow> nat set" where
  "unvisited_set visited = {i. i < length visited \<and> \<not> visited ! i}"

definition edges :: "(nat \<Rightarrow> nat list) \<Rightarrow> (nat \<times> nat) set" where
  "edges adj_list = {(a, b). b \<in> set (adj_list a)}"

text \<open>
  What a call of \<^verbatim>\<open>dfs\<close>, or a run of its loop, has done when it returns, on
  positions as payload: it has appended the positions \<open>new\<close>, all of them
  unvisited before and now visited, each reachable from a start position and
  with all its neighbours visited.
\<close>

definition dfs_result ::
  "(nat \<Rightarrow> nat list) \<Rightarrow> nat dfs_state \<Rightarrow> nat set \<Rightarrow> nat list \<Rightarrow> nat dfs_state \<Rightarrow> bool" where
  "dfs_result adj_list s starts new s' \<longleftrightarrow>
     length (fst s') = length (fst s)
     \<and> snd s' = snd s @ new
     \<and> visited_set (fst s') = visited_set (fst s) \<union> set new
     \<and> distinct new
     \<and> set new \<inter> visited_set (fst s) = {}
     \<and> starts \<subseteq> visited_set (fst s')
     \<and> (\<forall>u\<in>set new. set (adj_list u) \<subseteq> visited_set (fst s'))
     \<and> (\<forall>u\<in>set new. \<exists>s0\<in>starts. (s0, u) \<in> (edges adj_list)\<^sup>*)"

text \<open>
  What holds of the components found so far, between two rounds of the outer
  loop: they list the visited positions without repetition, each component has
  a position from which all its positions are reachable, and no edge leaves a
  component when the edges are symmetric.
\<close>

definition comps_inv :: "(nat \<Rightarrow> nat list) \<Rightarrow> bool list \<Rightarrow> nat list list \<Rightarrow> bool" where
  "comps_inv adj_list visited components \<longleftrightarrow>
     visited_set visited = set (concat components)
     \<and> distinct (concat components)
     \<and> (\<forall>c\<in>set components.
           (\<exists>r\<in>set c. \<forall>u\<in>set c. (r, u) \<in> (edges adj_list)\<^sup>*)
           \<and> (sym (edges adj_list) \<longrightarrow> (\<forall>u\<in>set c. set (adj_list u) \<subseteq> set c)))"

text \<open>
  A row of \<open>n\<close> rectangles, each ten wide and one high, five apart. With the
  threshold 5 of \<^verbatim>\<open>extract_vector\<close> each is adjacent to the next one only.
\<close>

definition chain :: "nat \<Rightarrow> rect list" where
  "chain n = map (\<lambda>i. \<lparr>x0 = 15 * real i, y0 = 0, x1 = 15 * real i + 10, y1 = 1\<rparr>) [0..<n]"

section \<open>Properties\<close>

subsection \<open>Merging rectangles\<close>

lemma merge_loop_foldl: "merge_loop combined bboxes = foldl rect_union combined bboxes"
  by (induction bboxes arbitrary: combined) simp_all

text \<open>
  Claim C10. \<^verbatim>\<open>merge_bounding_boxes\<close> returns \<open>None\<close> for the empty list; for a
  non-empty list it returns the left fold of the union over the list, starting
  from the first element; so it returns a rectangle exactly when the list is
  not empty.
\<close>

theorem merge_bounding_boxes_fold:
  "merge_bounding_boxes [] = None
   \<and> merge_bounding_boxes (first # rest) = Some (foldl rect_union first rest)
   \<and> ((\<exists>r. merge_bounding_boxes bboxes = Some r) = (bboxes \<noteq> []))"
  by (cases bboxes) (simp_all add: merge_loop_foldl)

lemma rect_contains_refl: "rect_contains r r"
  by (simp add: rect_contains_def)

lemma rect_contains_trans:
  "rect_contains a b \<Longrightarrow> rect_contains b c \<Longrightarrow> rect_contains a c"
  by (auto simp: rect_contains_def)

lemma rect_union_contains: "rect_contains (rect_union a b) a" "rect_contains (rect_union a b) b"
  by (simp_all add: rect_contains_def rect_union_def)

lemma merge_loop_contains:
  "rect_contains (merge_loop combined bboxes) combined
   \<and> (\<forall>b\<in>set bboxes. rect_contains (merge_loop combined bboxes) b)"
proof (induction bboxes arbitrary: combined)
  case Nil
  then show ?case by (simp add: rect_contains_refl)
next
  case (Cons b bs)
  from Cons [of "rect_union combined b"] show ?case
    using rect_union_contains [of combined b] by (auto intro: rect_contains_trans)
qed

lemma merge_contains:
  "merge_bounding_boxes bboxes = Some merged \<Longrightarrow> b \<in> set bboxes \<Longrightarrow> rect_contains merged b"
  using merge_loop_contains by (cases bboxes) auto

lemma contains_corners:
  "rect_contains outer inner \<Longrightarrow> well_formed inner \<Longrightarrow> p \<in> set (corners inner) \<Longrightarrow> point_in outer p"
  by (auto simp: rect_contains_def well_formed_def corners_def point_in_def)

lemma figure_bbox_total:
  "\<exists>fb. figure_bbox intersects blocks grp = Some fb \<and> rect_contains fb grp
     \<and> (\<forall>t\<in>set (find_surrounding_text intersects blocks grp THRESHOLD). rect_contains fb t)"
proof (cases "find_surrounding_text intersects blocks grp THRESHOLD")
  case Nil
  then show ?thesis by (simp add: figure_bbox_def rect_contains_refl)
next
  case (Cons t ts)
  then show ?thesis
    using merge_loop_contains [of grp "t # ts"] by (simp add: figure_bbox_def)
qed

text \<open>
  Claim C6. The rectangle merged from a non-empty component contains every
  member, and so does the rectangle of the figure made from it, which contains
  every text block folded into it as well. Containment is edge by edge; the
  four corners of every member and text block that has its left edge before
  its right and its top before its bottom lie inside.
\<close>

theorem union_superset:
  "bboxes \<noteq> [] \<Longrightarrow>
     \<exists>merged fb.
       merge_bounding_boxes bboxes = Some merged
       \<and> figure_bbox intersects blocks merged = Some fb
       \<and> (\<forall>b\<in>set bboxes.
             rect_contains merged b \<and> rect_contains fb b
             \<and> (well_formed b \<longrightarrow> (\<forall>p\<in>set (corners b). point_in merged p \<and> point_in fb p)))
       \<and> (\<forall>t\<in>set (find_surrounding_text intersects blocks merged THRESHOLD).
             rect_contains fb t
             \<and> (well_formed t \<longrightarrow> (\<forall>p\<in>set (corners t). point_in fb p)))"
proof -
  assume "bboxes \<noteq> []"
  then obtain merged where m: "merge_bounding_boxes bboxes = Some merged"
    by (cases bboxes) auto
  obtain fb where fb: "figure_bbox intersects blocks merged = Some fb"
    and g: "rect_contains fb merged"
    and t: "\<forall>t\<in>set (find_surrounding_text intersects blocks merged THRESHOLD). rect_contains fb t"
    using figure_bbox_total by blast
  have "rect_contains merged b \<and> rect_contains fb b" if "b \<in> set bboxes" for b
    using merge_contains [OF m that] g by (blast intro: rect_contains_trans)
  with m fb t show ?thesis
    by (blast intro: contains_corners)
qed

theorem union_superset_witness:
  "[\<lparr>x0 = 0, y0 = 0, x1 = 1, y1 = 1\<rparr>, \<lparr>x0 = 1, y0 = 0, x1 = 2, y1 = 1\<rparr>] \<noteq> []
   \<and> (\<exists>merged fb.
       merge_bounding_boxes [\<lparr>x0 = 0, y0 = 0, x1 = 1, y1 = 1\<rparr>, \<lparr>x0 = 1, y0 = 0, x1 = 2, y1 = 1\<rparr>] = Some merged
       \<and> figure_bbox boxes_intersect [\<lparr>block_type = 0, bbox = \<lparr>x0 = 2, y0 = 0, x1 = 3, y1 = 1\<rparr>\<rparr>] merged = Some fb
       \<and> (\<forall>b\<in>set [\<lparr>x0 = 0, y0 = 0, x1 = 1, y1 = 1\<rparr>, \<lparr>x0 = 1, y0 = 0, x1 = 2, y1 = 1\<rparr>].
             rect_contains merged b \<and> rect_contains fb b
             \<and> (well_formed b \<longrightarrow> (\<forall>p\<in>set (corners b). point_in merged p \<and> point_in fb p)))
       \<and> (\<forall>t\<in>set (find_surrounding_text boxes_intersect [\<lparr>block_type = 0, bbox = \<lparr>x0 = 2, y0 = 0, x1 = 3, y1 = 1\<rparr>\<rparr>] merged THRESHOLD).
             rect_contains fb t
             \<and> (well_formed t \<longrightarrow> (\<forall>p\<in>set (corners t). point_in fb p))))"
proof -
  have ne: "[\<lparr>x0 = 0, y0 = 0, x1 = 1, y1 = 1\<rparr>, \<lparr>x0 = 1, y0 = 0, x1 = 2, y1 = 1\<rparr>] \<noteq> []"
    by simp
  from union_superset [OF ne, of boxes_intersect "[\<lparr>block_type = 0, bbox = \<lparr>x0 = 2, y0 = 0, x1 = 3, y1 = 1\<rparr>\<rparr>]"] ne
  show ?thesis by (rule conjI [rotated])
qed

subsection \<open>The size filter\<close>

text \<open>
  Claim C4. The filter accepts a figure exactly when its area lies strictly
  between the two fractions of the page area; an area equal to either bound is
  rejected.
\<close>

theorem size_filter_exclusive_bounds:
  "(size_filter (page_size * min_fraction) (page_size * max_fraction) fb
      \<longleftrightarrow> min_fraction * page_size < figure_area fb \<and> figure_area fb < max_fraction * page_size)
   \<and> (figure_area fb = min_fraction * page_size
        \<longrightarrow> \<not> size_filter (page_size * min_fraction) (page_size * max_fraction) fb)
   \<and> (figure_area fb = max_fraction * page_size
        \<longrightarrow> \<not> size_filter (page_size * min_fraction) (page_size * max_fraction) fb)"
  by (simp add: size_filter_def figure_area_def Let_def mult.commute)

theorem size_filter_exclusive_bounds_witness:
  "figure_area \<lparr>x0 = 0, y0 = 0, x1 = 50, y1 = 1\<rparr> = MIN_SIZE * 1000
   \<and> figure_area \<lparr>x0 = 0, y0 = 0, x1 = 300, y1 = 1\<rparr> = MAX_SIZE * 1000
   \<and> \<not> size_filter (1000 * MIN_SIZE) (1000 * MAX_SIZE) \<lparr>x0 = 0, y0 = 0, x1 = 50, y1 = 1\<rparr>
   \<and> \<not> size_filter (1000 * MIN_SIZE) (1000 * MAX_SIZE) \<lparr>x0 = 0, y0 = 0, x1 = 300, y1 = 1\<rparr>
   \<and> \<not> size_filter (1000 * MIN_SIZE) (1000 * MAX_SIZE) \<lparr>x0 = 0, y0 = 0, x1 = 49, y1 = 1\<rparr>
   \<and> size_filter (1000 * MIN_SIZE) (1000 * MAX_SIZE) \<lparr>x0 = 0, y0 = 0, x1 = 51, y1 = 1\<rparr>"
proof -
  have a50: "figure_area \<lparr>x0 = 0, y0 = 0, x1 = 50, y1 = 1\<rparr> = MIN_SIZE * 1000"
    and a300: "figure_area \<lparr>x0 = 0, y0 = 0, x1 = 300, y1 = 1\<rparr> = MAX_SIZE * 1000"
    by (simp_all add: figure_area_def MIN_SIZE_def MAX_SIZE_def)
  have a49: "\<not> (MIN_SIZE * 1000 < figure_area \<lparr>x0 = 0, y0 = 0, x1 = 49, y1 = 1\<rparr>)"
    and a51: "MIN_SIZE * 1000 < figure_area \<lparr>x0 = 0, y0 = 0, x1 = 51, y1 = 1\<rparr>
              \<and> figure_area \<lparr>x0 = 0, y0 = 0, x1 = 51, y1 = 1\<rparr> < MAX_SIZE * 1000"
    by (simp_all add: figure_area_def MIN_SIZE_def MAX_SIZE_def)
  show ?thesis
    using a50 a300 a49 a51
      size_filter_exclusive_bounds [of 1000 MIN_SIZE MAX_SIZE "\<lparr>x0 = 0, y0 = 0, x1 = 50, y1 = 1\<rparr>"]
      size_filter_exclusive_bounds [of 1000 MIN_SIZE MAX_SIZE "\<lparr>x0 = 0, y0 = 0, x1 = 300, y1 = 1\<rparr>"]
      size_filter_exclusive_bounds [of 1000 MIN_SIZE MAX_SIZE "\<lparr>x0 = 0, y0 = 0, x1 = 49, y1 = 1\<rparr>"]
      size_filter_exclusive_bounds [of 1000 MIN_SIZE MAX_SIZE "\<lparr>x0 = 0, y0 = 0, x1 = 51, y1 = 1\<rparr>"]
    by blast
qed

subsection \<open>The proximity graph\<close>

lemma foldl_snoc_map: "foldl (\<lambda>acc x. acc @ [f x]) acc xs = acc @ map f xs"
  by (induction xs arbitrary: acc) simp_all

lemma build_index_eq:
  "build_index bboxes threshold =
     map (\<lambda>ir. (fst ir, expanded (snd ir) threshold)) (enumerate 0 bboxes)"
  using foldl_snoc_map [of "\<lambda>ir. (fst ir, expanded (snd ir) threshold)" "[]" "enumerate 0 bboxes"]
  by (simp add: build_index_def index_insert_def)

lemma add_neighbors_eq:
  "add_neighbors i adj_list js = adj_list(i := adj_list i @ filter (\<lambda>j. i \<noteq> j) js)"
  unfolding add_neighbors_def
  by (induction js arbitrary: adj_list) auto

lemma add_neighbors_at:
  "add_neighbors i adj_list js p =
     (if p = i then adj_list i @ filter (\<lambda>j. i \<noteq> j) js else adj_list p)"
  by (simp add: add_neighbors_eq)

lemma build_adj_list_enumerate:
  "foldl (\<lambda>adj ir. add_neighbors (fst ir) adj (nb (snd ir))) adj_list (enumerate k xs) p =
     (if k \<le> p \<and> p < k + length xs
      then adj_list p @ filter (\<lambda>j. p \<noteq> j) (nb (xs ! (p - k)))
      else adj_list p)"
proof (induction xs arbitrary: k adj_list)
  case Nil
  then show ?case by simp
next
  case (Cons x xs)
  let ?F = "\<lambda>adj ir. add_neighbors (fst ir) adj (nb (snd ir))"
  let ?adj = "add_neighbors k adj_list (nb x)"
  have step: "foldl ?F adj_list (enumerate k (x # xs)) p =
      foldl ?F ?adj (enumerate (Suc k) xs) p"
    by simp
  have ih: "foldl ?F ?adj (enumerate (Suc k) xs) p =
      (if Suc k \<le> p \<and> p < Suc k + length xs
       then ?adj p @ filter (\<lambda>j. p \<noteq> j) (nb (xs ! (p - Suc k)))
       else ?adj p)"
    by (rule Cons.IH)
  note eq = trans [OF step ih]
  consider "p < k" | "p = k" | "k < p"
    by linarith
  then show ?case
  proof cases
    case 1
    then show ?thesis
      by (subst eq) (simp add: add_neighbors_at)
  next
    case 2
    then show ?thesis
      by (subst eq) (simp add: add_neighbors_at)
  next
    case 3
    then obtain d where d: "p = Suc (k + d)"
      by (metis less_iff_Suc_add)
    show ?thesis
      by (subst eq) (simp add: add_neighbors_at d)
  qed
qed

lemma proximity_graph_eq:
  "proximity_graph bboxes threshold i =
     (if i < length bboxes
      then filter (\<lambda>j. i \<noteq> j)
             (index_intersection (build_index bboxes threshold) (expanded (bboxes ! i) threshold))
      else [])"
proof -
  let ?nb = "\<lambda>r. index_intersection (build_index bboxes threshold) (expanded r threshold)"
  have "proximity_graph bboxes threshold i =
      foldl (\<lambda>adj ir. add_neighbors (fst ir) adj (?nb (snd ir))) (\<lambda>_. []) (enumerate 0 bboxes) i"
    by (simp only: proximity_graph_def build_adj_list_def)
  also have "\<dots> = (if 0 \<le> i \<and> i < 0 + length bboxes
      then [] @ filter (\<lambda>j. i \<noteq> j) (?nb (bboxes ! (i - 0))) else [])"
    by (rule build_adj_list_enumerate
        [where nb = "?nb" and adj_list = "\<lambda>_. []" and k = 0 and xs = bboxes and p = i])
  finally show ?thesis by simp
qed

lemma enumerate_upt: "enumerate 0 xs = map (\<lambda>i. (i, xs ! i)) [0..<length xs]"
  by (rule nth_equalityI) (simp_all add: nth_enumerate_eq)

lemma index_intersection_build:
  "set (index_intersection (build_index bboxes threshold) q) =
     {j. j < length bboxes \<and> boxes_intersect (expanded (bboxes ! j) threshold) q}"
  by (auto simp: index_intersection_def build_index_eq enumerate_upt image_iff)

lemma proximity_graph_edge:
  "j \<in> set (proximity_graph bboxes threshold i) \<longleftrightarrow>
     i < length bboxes \<and> j < length bboxes \<and> i \<noteq> j
     \<and> boxes_intersect (expanded (bboxes ! j) threshold) (expanded (bboxes ! i) threshold)"
  by (auto simp: proximity_graph_eq index_intersection_build)

lemma expanded_intersect_gap:
  "boxes_intersect (expanded a threshold) (expanded b threshold) \<longleftrightarrow>
     axis_gap_x a b \<le> 2 * threshold \<and> axis_gap_y a b \<le> 2 * threshold"
  by (auto simp: boxes_intersect_def expanded_def rect_add_def axis_gap_x_def axis_gap_y_def)

text \<open>
  Claim C1, as the code has it. An edge from \<open>i\<close> to \<open>j\<close> is recorded exactly
  when both are positions of the list, they differ, and the distance between
  the two rectangles is at most twice the threshold on each axis: both
  rectangles are expanded, and rectangles that touch intersect.
\<close>

theorem proximity_edge_gap:
  "j \<in> set (proximity_graph bboxes threshold i) \<longleftrightarrow>
     i < length bboxes \<and> j < length bboxes \<and> i \<noteq> j
     \<and> axis_gap_x (bboxes ! i) (bboxes ! j) \<le> 2 * threshold
     \<and> axis_gap_y (bboxes ! i) (bboxes ! j) \<le> 2 * threshold"
  by (auto simp: proximity_graph_edge expanded_intersect_gap axis_gap_x_def axis_gap_y_def max.commute)

text \<open>
  Claim C1 as stated fails: with threshold 2, two unit squares at distance 3
  are joined by an edge, though their distance is not below the threshold.
\<close>

theorem proximity_edge_gap_counterexample:
  "1 \<in> set (proximity_graph [\<lparr>x0 = 0, y0 = 0, x1 = 1, y1 = 1\<rparr>, \<lparr>x0 = 4, y0 = 0, x1 = 5, y1 = 1\<rparr>] 2 0)
   \<and> \<not> gap_adjacent 2 \<lparr>x0 = 0, y0 = 0, x1 = 1, y1 = 1\<rparr> \<lparr>x0 = 4, y0 = 0, x1 = 5, y1 = 1\<rparr>"
  by code_simp

subsection \<open>The traversal\<close>

lemma visited_set_mark:
  "node < length visited \<Longrightarrow> visited_set (visited[node := True]) = insert node (visited_set visited)"
  by (auto simp: visited_set_def nth_list_update)

lemma dfs_result_skip:
  "nb \<in> visited_set (fst s) \<Longrightarrow> dfs_result adj_list s starts new s' \<Longrightarrow>
     dfs_result adj_list s (insert nb starts) new s'"
  unfolding dfs_result_def by blast

lemma dfs_result_nil: "dfs_result adj_list s {} [] s"
  unfolding dfs_result_def by simp

lemma dfs_result_seq:
  assumes "dfs_result adj_list s A new1 s1" and "dfs_result adj_list s1 B new2 s2"
  shows "dfs_result adj_list s (A \<union> B) (new1 @ new2) s2"
proof -
  from assms(1) have 1: "length (fst s1) = length (fst s)" "snd s1 = snd s @ new1"
    "visited_set (fst s1) = visited_set (fst s) \<union> set new1" "distinct new1"
    "set new1 \<inter> visited_set (fst s) = {}" "A \<subseteq> visited_set (fst s1)"
    "\<forall>u\<in>set new1. set (adj_list u) \<subseteq> visited_set (fst s1)"
    "\<forall>u\<in>set new1. \<exists>s0\<in>A. (s0, u) \<in> (edges adj_list)\<^sup>*"
    unfolding dfs_result_def by blast+
  from assms(2) have 2: "length (fst s2) = length (fst s1)" "snd s2 = snd s1 @ new2"
    "visited_set (fst s2) = visited_set (fst s1) \<union> set new2" "distinct new2"
    "set new2 \<inter> visited_set (fst s1) = {}" "B \<subseteq> visited_set (fst s2)"
    "\<forall>u\<in>set new2. set (adj_list u) \<subseteq> visited_set (fst s2)"
    "\<forall>u\<in>set new2. \<exists>s0\<in>B. (s0, u) \<in> (edges adj_list)\<^sup>*"
    unfolding dfs_result_def by blast+
  have a: "length (fst s2) = length (fst s)" "snd s2 = snd s @ new1 @ new2"
    using 1(1,2) 2(1,2) by simp_all
  have b: "visited_set (fst s2) = visited_set (fst s) \<union> set (new1 @ new2)"
    using 1(3) 2(3) by auto
  have c: "distinct (new1 @ new2)"
    using 1(3,4) 2(4,5) by auto
  have d: "set (new1 @ new2) \<inter> visited_set (fst s) = {}"
    using 1(3,5) 2(5) by auto
  have e: "A \<union> B \<subseteq> visited_set (fst s2)"
    using 1(6) 2(3,6) by auto
  have f: "\<forall>u\<in>set (new1 @ new2). set (adj_list u) \<subseteq> visited_set (fst s2)"
    using 1(7) 2(3,7) by auto
  have g: "\<forall>u\<in>set (new1 @ new2). \<exists>s0\<in>A \<union> B. (s0, u) \<in> (edges adj_list)\<^sup>*"
    using 1(8) 2(8) by auto
  from a b c d e f g show ?thesis
    unfolding dfs_result_def by blast
qed

lemma dfs_result_mark:
  assumes "node < length visited" and "\<not> visited ! node"
    and "dfs_result adj_list (visited[node := True], component @ [node]) (set (adj_list node)) new s'"
  shows "dfs_result adj_list (visited, component) {node} (node # new) s'"
proof -
  have nv: "node \<notin> visited_set visited"
    using assms(2) by (simp add: visited_set_def)
  have reach: "(node, u) \<in> (edges adj_list)\<^sup>*"
    if "s0 \<in> set (adj_list node)" "(s0, u) \<in> (edges adj_list)\<^sup>*" for s0 u
  proof -
    from that(1) have "(node, s0) \<in> edges adj_list"
      by (simp add: edges_def)
    then show ?thesis
      using that(2) by (rule converse_rtrancl_into_rtrancl)
  qed
  let ?s1 = "(visited[node := True], component @ [node])"
  from assms(3) have 1: "length (fst s') = length (fst ?s1)" "snd s' = snd ?s1 @ new"
    "visited_set (fst s') = visited_set (fst ?s1) \<union> set new" "distinct new"
    "set new \<inter> visited_set (fst ?s1) = {}" "set (adj_list node) \<subseteq> visited_set (fst s')"
    "\<forall>u\<in>set new. set (adj_list u) \<subseteq> visited_set (fst s')"
    "\<forall>u\<in>set new. \<exists>s0\<in>set (adj_list node). (s0, u) \<in> (edges adj_list)\<^sup>*"
    unfolding dfs_result_def by blast+
  note vm = visited_set_mark [OF assms(1)]
  have a: "length (fst s') = length visited" "snd s' = component @ node # new"
    using 1(1,2) by simp_all
  have b: "visited_set (fst s') = visited_set visited \<union> set (node # new)"
    using 1(3) vm by auto
  have c: "distinct (node # new)"
    using 1(4,5) vm by auto
  have d: "set (node # new) \<inter> visited_set visited = {}"
    using 1(5) vm nv by auto
  have e: "{node} \<subseteq> visited_set (fst s')"
    using b by auto
  have f: "\<forall>u\<in>set (node # new). set (adj_list u) \<subseteq> visited_set (fst s')"
    using 1(6,7) by auto
  have g: "\<forall>u\<in>set (node # new). \<exists>s0\<in>{node}. (s0, u) \<in> (edges adj_list)\<^sup>*"
    using 1(8) reach by auto
  from a b c d e f g show ?thesis
    unfolding dfs_result_def by simp
qed

lemma finite_unvisited_set: "finite (unvisited_set visited)"
  by (simp add: unvisited_set_def)

lemma unvisited_set_mark:
  "node < length visited \<Longrightarrow>
     unvisited_set (visited[node := True]) = unvisited_set visited - {node}"
  by (auto simp: unvisited_set_def nth_list_update)

lemma dfs_result_unvisited:
  assumes "dfs_result adj_list s starts new s'"
  shows "unvisited_set (fst s') \<subseteq> unvisited_set (fst s)"
proof
  fix i assume i: "i \<in> unvisited_set (fst s')"
  from assms have len: "length (fst s') = length (fst s)"
    and sub: "visited_set (fst s) \<subseteq> visited_set (fst s')"
    unfolding dfs_result_def by auto
  from i len have "i < length (fst s)" "i \<notin> visited_set (fst s')"
    by (simp_all add: unvisited_set_def visited_set_def)
  with sub show "i \<in> unvisited_set (fst s)"
    by (auto simp: unvisited_set_def visited_set_def)
qed

text \<open>
  A call of \<^verbatim>\<open>dfs\<close> on positions either returns, having done what \<open>dfs_result\<close>
  says, or raises \<^verbatim>\<open>RecursionError\<close>, and then there were more unvisited
  positions than the depth left.
\<close>

lemma dfs_outcome:
  "bboxes = [0..<length (fst s)] \<Longrightarrow> \<forall>i. set (adj_list i) \<subseteq> {..<length (fst s)} \<Longrightarrow>
     node < length (fst s) \<Longrightarrow> \<not> fst s ! node \<Longrightarrow>
     (\<exists>new s'. dfs depth bboxes adj_list node s = Inr s' \<and> dfs_result adj_list s {node} new s')
     \<or> (dfs depth bboxes adj_list node s = Inl RecursionError
          \<and> depth < card (unvisited_set (fst s)))"
  "bboxes = [0..<length (fst s)] \<Longrightarrow> \<forall>i. set (adj_list i) \<subseteq> {..<length (fst s)} \<Longrightarrow>
     set nbs \<subseteq> {..<length (fst s)} \<Longrightarrow>
     (\<exists>new s'. dfs_for depth bboxes adj_list nbs s = Inr s' \<and> dfs_result adj_list s (set nbs) new s')
     \<or> (dfs_for depth bboxes adj_list nbs s = Inl RecursionError
          \<and> depth < card (unvisited_set (fst s)))"
proof (induction depth bboxes adj_list node s and depth bboxes adj_list nbs s
    rule: dfs_dfs_for.induct)
  case (1 bboxes adj_list node s)
  from 1(3,4) have "node \<in> unvisited_set (fst s)"
    by (simp add: unvisited_set_def)
  then have "0 < card (unvisited_set (fst s))"
    using finite_unvisited_set [of "fst s"] by (auto simp: card_gt_0_iff)
  then show ?case by simp
next
  case (2 depth bboxes adj_list node visited component)
  let ?s1 = "(visited[node := True], component @ [bboxes ! node])"
  from 2(2,4) have inrange: "node < length visited \<and> node < length bboxes"
    by simp
  from 2(2,4) have payload: "bboxes ! node = node"
    by simp
  from inrange have unfold: "dfs (Suc depth) bboxes adj_list node (visited, component) =
      dfs_for depth bboxes adj_list (adj_list node) ?s1"
    by simp
  from 2(2,3) have "(\<exists>new s'. dfs_for depth bboxes adj_list (adj_list node) ?s1 = Inr s'
      \<and> dfs_result adj_list ?s1 (set (adj_list node)) new s')
    \<or> (dfs_for depth bboxes adj_list (adj_list node) ?s1 = Inl RecursionError
      \<and> depth < card (unvisited_set (fst ?s1)))"
    by (intro 2(1) [OF inrange]) simp_all
  then show ?case
  proof
    assume "\<exists>new s'. dfs_for depth bboxes adj_list (adj_list node) ?s1 = Inr s'
      \<and> dfs_result adj_list ?s1 (set (adj_list node)) new s'"
    then obtain new s' where run: "dfs_for depth bboxes adj_list (adj_list node) ?s1 = Inr s'"
      and res: "dfs_result adj_list (visited[node := True], component @ [node])
        (set (adj_list node)) new s'"
      unfolding payload by blast
    from 2(4,5) have "dfs_result adj_list (visited, component) {node} (node # new) s'"
      by (intro dfs_result_mark [OF _ _ res]) simp_all
    with run unfold show ?thesis by auto
  next
    assume fail: "dfs_for depth bboxes adj_list (adj_list node) ?s1 = Inl RecursionError
      \<and> depth < card (unvisited_set (fst ?s1))"
    from 2(4,5) have mem: "node \<in> unvisited_set visited"
      by (simp add: unvisited_set_def)
    from inrange have "unvisited_set (fst ?s1) = unvisited_set visited - {node}"
      by (simp add: unvisited_set_mark)
    then have "Suc (card (unvisited_set (fst ?s1))) = card (unvisited_set visited)"
      using card_Suc_Diff1 [OF finite_unvisited_set mem] by simp
    with fail unfold show ?thesis by auto
  qed
next
  case (3 depth bboxes adj_list s)
  show ?case
    using dfs_result_nil [of adj_list s] by auto
next
  case (4 depth bboxes adj_list neighbor rest visited component)
  from 4(6) have inrange: "neighbor < length visited" and rest: "set rest \<subseteq> {..<length visited}"
    by simp_all
  show ?case
  proof (cases "visited ! neighbor")
    case True
    from inrange True have unfold:
      "dfs_for depth bboxes adj_list (neighbor # rest) (visited, component) =
        dfs_for depth bboxes adj_list rest (visited, component)"
      by simp
    from 4(4,5) rest have "(\<exists>new s'. dfs_for depth bboxes adj_list rest (visited, component) = Inr s'
        \<and> dfs_result adj_list (visited, component) (set rest) new s')
      \<or> (dfs_for depth bboxes adj_list rest (visited, component) = Inl RecursionError
        \<and> depth < card (unvisited_set (fst (visited, component))))"
      using True by (intro 4(3) [OF inrange]) simp_all
    then show ?thesis
    proof
      assume "\<exists>new s'. dfs_for depth bboxes adj_list rest (visited, component) = Inr s'
        \<and> dfs_result adj_list (visited, component) (set rest) new s'"
      then obtain new s' where run: "dfs_for depth bboxes adj_list rest (visited, component) = Inr s'"
        and res: "dfs_result adj_list (visited, component) (set rest) new s'"
        by blast
      from inrange True have "neighbor \<in> visited_set (fst (visited, component))"
        by (simp add: visited_set_def)
      from dfs_result_skip [OF this res]
      have "dfs_result adj_list (visited, component) (set (neighbor # rest)) new s'"
        by simp
      with run unfold show ?thesis by auto
    next
      assume "dfs_for depth bboxes adj_list rest (visited, component) = Inl RecursionError
        \<and> depth < card (unvisited_set (fst (visited, component)))"
      with unfold show ?thesis by auto
    qed
  next
    case False
    from 4(4,5) have "(\<exists>new s'. dfs depth bboxes adj_list neighbor (visited, component) = Inr s'
        \<and> dfs_result adj_list (visited, component) {neighbor} new s')
      \<or> (dfs depth bboxes adj_list neighbor (visited, component) = Inl RecursionError
        \<and> depth < card (unvisited_set (fst (visited, component))))"
      using False inrange by (intro 4(1) [OF inrange False]) simp_all
    then show ?thesis
    proof
      assume "dfs depth bboxes adj_list neighbor (visited, component) = Inl RecursionError
        \<and> depth < card (unvisited_set (fst (visited, component)))"
      with inrange False show ?thesis by simp
    next
      assume "\<exists>new s'. dfs depth bboxes adj_list neighbor (visited, component) = Inr s'
        \<and> dfs_result adj_list (visited, component) {neighbor} new s'"
      then obtain new1 s1 where run1: "dfs depth bboxes adj_list neighbor (visited, component) = Inr s1"
        and res1: "dfs_result adj_list (visited, component) {neighbor} new1 s1"
        by blast
      from inrange False run1 have unfold:
        "dfs_for depth bboxes adj_list (neighbor # rest) (visited, component) =
          dfs_for depth bboxes adj_list rest s1"
        by simp
      from res1 have len: "length (fst s1) = length visited"
        by (simp add: dfs_result_def)
      from 4(4,5) rest have "(\<exists>new s'. dfs_for depth bboxes adj_list rest s1 = Inr s'
          \<and> dfs_result adj_list s1 (set rest) new s')
        \<or> (dfs_for depth bboxes adj_list rest s1 = Inl RecursionError
          \<and> depth < card (unvisited_set (fst s1)))"
        by (intro 4(2) [OF inrange False run1]) (simp_all add: len)
      then show ?thesis
      proof
        assume "\<exists>new s'. dfs_for depth bboxes adj_list rest s1 = Inr s'
          \<and> dfs_result adj_list s1 (set rest) new s'"
        then obtain new2 s2 where run2: "dfs_for depth bboxes adj_list rest s1 = Inr s2"
          and res2: "dfs_result adj_list s1 (set rest) new2 s2"
          by blast
        from dfs_result_seq [OF res1 res2]
        have "dfs_result adj_list (visited, component) (set (neighbor # rest)) (new1 @ new2) s2"
          by simp
        with run2 unfold show ?thesis by auto
      next
        assume fail: "dfs_for depth bboxes adj_list rest s1 = Inl RecursionError
          \<and> depth < card (unvisited_set (fst s1))"
        from dfs_result_unvisited [OF res1]
        have "card (unvisited_set (fst s1)) \<le> card (unvisited_set visited)"
          using finite_unvisited_set [of visited] by (simp add: card_mono)
        with fail unfold show ?thesis by auto
      qed
    qed
  qed
qed

lemma dfs_payload:
  "length b = length c \<Longrightarrow> \<forall>i<length c. b ! i = f (c ! i) \<Longrightarrow>
     dfs depth b adj_list node (fst s, map f (snd s)) =
       map_sum id (apsnd (map f)) (dfs depth c adj_list node s)"
  "length b = length c \<Longrightarrow> \<forall>i<length c. b ! i = f (c ! i) \<Longrightarrow>
     dfs_for depth b adj_list nbs (fst s, map f (snd s)) =
       map_sum id (apsnd (map f)) (dfs_for depth c adj_list nbs s)"
proof (induction depth c adj_list node s and depth c adj_list nbs s rule: dfs_dfs_for.induct)
  case (1 c adj_list node s)
  show ?case by simp
next
  case (2 depth c adj_list node visited component)
  show ?case
  proof (cases "node < length visited \<and> node < length c")
    case True
    with 2(2,3) have "b ! node = f (c ! node)"
      by simp
    with 2(1) [OF True 2(2,3)] True 2(2) show ?thesis
      by simp
  next
    case False
    with 2(2) show ?thesis by auto
  qed
next
  case (3 depth c adj_list s)
  then show ?case by (cases s) simp
next
  case (4 depth c adj_list neighbor rest visited component)
  show ?case
  proof (cases "neighbor < length visited \<and> \<not> visited ! neighbor")
    case False
    with 4(3) [OF _ _ 4(4,5)] show ?thesis
      by (cases "neighbor < length visited") simp_all
  next
    case True
    then have inrange: "neighbor < length visited" and new: "\<not> visited ! neighbor"
      by simp_all
    note ih1 = 4(1) [OF inrange new 4(4,5)]
    show ?thesis
    proof (cases "dfs depth c adj_list neighbor (visited, component)")
      case (Inl e)
      with ih1 inrange new show ?thesis by simp
    next
      case (Inr s1)
      from 4(2) [OF inrange new Inr 4(4,5)] ih1 Inr inrange new show ?thesis
        by (cases s1) simp
    qed
  qed
qed

lemma find_components_payload:
  "length b = length c \<Longrightarrow> \<forall>i<length c. b ! i = f (c ! i) \<Longrightarrow>
     find_components depth b adj_list todo visited (map (map f) components) =
       map_sum id (map (map f)) (find_components depth c adj_list todo visited components)"
proof (induction todo arbitrary: visited components)
  case Nil
  then show ?case by simp
next
  case (Cons i rest)
  show ?case
  proof (cases "i < length visited \<and> \<not> visited ! i")
    case False
    with Cons.IH [OF Cons.prems] show ?thesis
      by (cases "i < length visited") simp_all
  next
    case True
    have start: "dfs depth b adj_list i (visited, []) =
        map_sum id (apsnd (map f)) (dfs depth c adj_list i (visited, []))"
      using dfs_payload(1) [OF Cons.prems, of depth adj_list i "(visited, [])"] by simp
    show ?thesis
    proof (cases "dfs depth c adj_list i (visited, [])")
      case (Inl e)
      with start True show ?thesis by simp
    next
      case (Inr s1)
      from Cons.IH [OF Cons.prems, of "fst s1" "components @ [snd s1]"] start Inr True
      show ?thesis by simp
    qed
  qed
qed

lemma traverse_payload:
  "traverse depth b adj_list =
     map_sum id (map (map (nth b))) (traverse depth [0..<length b] adj_list)"
  using find_components_payload [of b "[0..<length b]" "nth b" depth adj_list "[0..<length b]"
      "replicate (length b) False" "[]"]
  by (simp add: traverse_def)

lemma comps_inv_step:
  assumes inv: "comps_inv adj_list visited components"
    and res: "dfs_result adj_list (visited, []) {i} new s'"
    and fresh: "i \<notin> visited_set visited"
  shows "comps_inv adj_list (fst s') (components @ [snd s'])"
proof -
  from res have 1: "snd s' = new"
    "visited_set (fst s') = visited_set visited \<union> set new" "distinct new"
    "set new \<inter> visited_set visited = {}" "i \<in> visited_set (fst s')"
    "\<forall>u\<in>set new. set (adj_list u) \<subseteq> visited_set (fst s')"
    "\<forall>u\<in>set new. (i, u) \<in> (edges adj_list)\<^sup>*"
    unfolding dfs_result_def by auto
  from inv have 2: "visited_set visited = set (concat components)"
    "distinct (concat components)"
    "\<forall>c\<in>set components. (\<exists>r\<in>set c. \<forall>u\<in>set c. (r, u) \<in> (edges adj_list)\<^sup>*)"
    unfolding comps_inv_def by blast+
  from inv have 3: "\<forall>c\<in>set components. \<forall>u\<in>set c. set (adj_list u) \<subseteq> set c"
    if "sym (edges adj_list)"
    using that unfolding comps_inv_def by blast
  have a: "visited_set (fst s') = set (concat (components @ [snd s']))"
    using 1(1,2) 2(1) by simp
  have b: "distinct (concat (components @ [snd s']))"
    using 1(1,3,4) 2(1,2) by auto
  have "i \<in> set new"
    using 1(2,5) fresh by simp
  with 1(7) have root: "\<exists>r\<in>set new. \<forall>u\<in>set new. (r, u) \<in> (edges adj_list)\<^sup>*"
    by blast
  have closed: "set (adj_list u) \<subseteq> set new" if s: "sym (edges adj_list)" and u: "u \<in> set new" for u
  proof
    fix v assume v: "v \<in> set (adj_list u)"
    with 1(2,6) u have "v \<in> visited_set visited \<union> set new"
      by blast
    moreover have False if "v \<in> visited_set visited"
    proof -
      from that 2(1) obtain c where c: "c \<in> set components" "v \<in> set c"
        by auto
      from v have "(u, v) \<in> edges adj_list"
        by (simp add: edges_def)
      with s have "(v, u) \<in> edges adj_list"
        by (simp add: sym_def)
      then have "u \<in> set (adj_list v)"
        by (simp add: edges_def)
      with 3 [OF s] c have "u \<in> set c"
        by blast
      with c(1) 2(1) have "u \<in> visited_set visited"
        by auto
      with 1(4) u show False
        by blast
    qed
    ultimately show "v \<in> set new"
      by blast
  qed
  from a b root closed 2(3) 3 show ?thesis
    unfolding comps_inv_def 1(1) by simp
qed

text \<open>
  The outer loop on positions either returns components for which \<open>comps_inv\<close>
  holds, or raises \<^verbatim>\<open>RecursionError\<close>, and then the depth was below the number
  of positions.
\<close>

lemma find_components_outcome:
  "length visited = n \<Longrightarrow> \<forall>i. set (adj_list i) \<subseteq> {..<n} \<Longrightarrow> set todo \<subseteq> {..<n} \<Longrightarrow>
     comps_inv adj_list visited components \<Longrightarrow>
     (\<exists>visited' components'.
        find_components depth [0..<n] adj_list todo visited components = Inr components'
        \<and> length visited' = n \<and> comps_inv adj_list visited' components'
        \<and> visited_set visited \<union> set todo \<subseteq> visited_set visited')
     \<or> (find_components depth [0..<n] adj_list todo visited components = Inl RecursionError
          \<and> depth < n)"
proof (induction todo arbitrary: visited components)
  case Nil
  then show ?case by auto
next
  case (Cons i rest)
  from Cons.prems(1,3) have inrange: "i < length visited" and rest: "set rest \<subseteq> {..<n}"
    by simp_all
  show ?case
  proof (cases "visited ! i")
    case True
    from inrange True have unfold:
      "find_components depth [0..<n] adj_list (i # rest) visited components =
        find_components depth [0..<n] adj_list rest visited components"
      by simp
    from inrange True have mem: "i \<in> visited_set visited"
      by (simp add: visited_set_def)
    from Cons.IH [OF Cons.prems(1,2) rest Cons.prems(4)] show ?thesis
    proof
      assume "\<exists>visited' components'.
        find_components depth [0..<n] adj_list rest visited components = Inr components'
        \<and> length visited' = n \<and> comps_inv adj_list visited' components'
        \<and> visited_set visited \<union> set rest \<subseteq> visited_set visited'"
      then obtain visited' components' where
        run: "find_components depth [0..<n] adj_list rest visited components = Inr components'"
        and post: "length visited' = n" "comps_inv adj_list visited' components'"
          "visited_set visited \<union> set rest \<subseteq> visited_set visited'"
        by blast
      from mem post(3) have "visited_set visited \<union> set (i # rest) \<subseteq> visited_set visited'"
        by auto
      with run post(1,2) show ?thesis
        unfolding unfold by blast
    next
      assume "find_components depth [0..<n] adj_list rest visited components = Inl RecursionError
        \<and> depth < n"
      then show ?thesis
        unfolding unfold by blast
    qed
  next
    case False
    with inrange have fresh: "i \<notin> visited_set visited"
      by (simp add: visited_set_def)
    from dfs_outcome(1) [of "[0..<n]" "(visited, [])" adj_list i depth] Cons.prems(1,2) inrange False
    have "(\<exists>new s'. dfs depth [0..<n] adj_list i (visited, []) = Inr s'
        \<and> dfs_result adj_list (visited, []) {i} new s')
      \<or> (dfs depth [0..<n] adj_list i (visited, []) = Inl RecursionError
        \<and> depth < card (unvisited_set visited))"
      by simp
    then show ?thesis
    proof
      assume fail: "dfs depth [0..<n] adj_list i (visited, []) = Inl RecursionError
        \<and> depth < card (unvisited_set visited)"
      have "unvisited_set visited \<subseteq> {..<n}"
        using Cons.prems(1) by (auto simp: unvisited_set_def)
      then have "card (unvisited_set visited) \<le> n"
        using card_mono [of "{..<n}" "unvisited_set visited"] by simp
      with fail inrange False show ?thesis
        by simp
    next
      assume "\<exists>new s'. dfs depth [0..<n] adj_list i (visited, []) = Inr s'
        \<and> dfs_result adj_list (visited, []) {i} new s'"
      then obtain new s' where run1: "dfs depth [0..<n] adj_list i (visited, []) = Inr s'"
        and res: "dfs_result adj_list (visited, []) {i} new s'"
        by blast
      from inrange False run1 have unfold:
        "find_components depth [0..<n] adj_list (i # rest) visited components =
          find_components depth [0..<n] adj_list rest (fst s') (components @ [snd s'])"
        by simp
      from res have len: "length (fst s') = n"
        and grow: "visited_set visited \<subseteq> visited_set (fst s')" "i \<in> visited_set (fst s')"
        using Cons.prems(1) by (auto simp: dfs_result_def)
      note inv = comps_inv_step [OF Cons.prems(4) res fresh]
      from Cons.IH [OF len Cons.prems(2) rest inv] show ?thesis
      proof
        assume "\<exists>visited' components'.
          find_components depth [0..<n] adj_list rest (fst s') (components @ [snd s']) =
            Inr components'
          \<and> length visited' = n \<and> comps_inv adj_list visited' components'
          \<and> visited_set (fst s') \<union> set rest \<subseteq> visited_set visited'"
        then obtain visited' components' where
          run: "find_components depth [0..<n] adj_list rest (fst s') (components @ [snd s']) =
            Inr components'"
          and post: "length visited' = n" "comps_inv adj_list visited' components'"
            "visited_set (fst s') \<union> set rest \<subseteq> visited_set visited'"
          by blast
        from grow post(3) have "visited_set visited \<union> set (i # rest) \<subseteq> visited_set visited'"
          by auto
        with run post(1,2) show ?thesis
          unfolding unfold by blast
      next
        assume "find_components depth [0..<n] adj_list rest (fst s') (components @ [snd s']) =
            Inl RecursionError \<and> depth < n"
        then show ?thesis
          unfolding unfold by blast
      qed
    qed
  qed
qed

lemma traverse_outcome:
  assumes "\<forall>i. set (adj_list i) \<subseteq> {..<n}"
  shows "(\<exists>ics. traverse depth [0..<n] adj_list = Inr ics
       \<and> distinct (concat ics) \<and> set (concat ics) = {..<n}
       \<and> (\<forall>c\<in>set ics. (\<exists>r\<in>set c. \<forall>u\<in>set c. (r, u) \<in> (edges adj_list)\<^sup>*)
             \<and> (sym (edges adj_list) \<longrightarrow> (\<forall>u\<in>set c. set (adj_list u) \<subseteq> set c))))
     \<or> (traverse depth [0..<n] adj_list = Inl RecursionError \<and> depth < n)"
proof -
  have start: "comps_inv adj_list (replicate n False) []"
    by (simp add: comps_inv_def visited_set_def)
  have len: "length (replicate n False) = n" and sub: "set [0..<n] \<subseteq> {..<n}"
    by auto
  have tr: "traverse depth [0..<n] adj_list =
      find_components depth [0..<n] adj_list [0..<n] (replicate n False) []"
    by (simp add: traverse_def)
  from find_components_outcome [OF len assms sub start, of depth] show ?thesis
  proof
    assume "\<exists>visited' ics.
      find_components depth [0..<n] adj_list [0..<n] (replicate n False) [] = Inr ics
      \<and> length visited' = n \<and> comps_inv adj_list visited' ics
      \<and> visited_set (replicate n False) \<union> set [0..<n] \<subseteq> visited_set visited'"
    then obtain visited' ics where
      run: "find_components depth [0..<n] adj_list [0..<n] (replicate n False) [] = Inr ics"
      and post: "length visited' = n" "comps_inv adj_list visited' ics"
        "visited_set (replicate n False) \<union> set [0..<n] \<subseteq> visited_set visited'"
      by blast
    from post(1,3) have "visited_set visited' = {..<n}"
      by (auto simp: visited_set_def)
    with post(2) run show ?thesis
      unfolding comps_inv_def tr by auto
  next
    assume "find_components depth [0..<n] adj_list [0..<n] (replicate n False) [] =
      Inl RecursionError \<and> depth < n"
    then show ?thesis
      unfolding tr by blast
  qed
qed

lemma proximity_graph_range: "\<forall>i. set (proximity_graph bboxes threshold i) \<subseteq> {..<length bboxes}"
  by (auto simp: proximity_graph_edge)

lemma boxes_intersect_commute: "boxes_intersect a b = boxes_intersect b a"
  by (auto simp: boxes_intersect_def)

lemma proximity_graph_sym: "sym (edges (proximity_graph bboxes threshold))"
  unfolding sym_def edges_def
  using boxes_intersect_commute by (auto simp: proximity_graph_edge)

lemma expanded_intersect_mono:
  "t1 \<le> t2 \<Longrightarrow> boxes_intersect (expanded a t1) (expanded b t1) \<Longrightarrow>
     boxes_intersect (expanded a t2) (expanded b t2)"
  by (auto simp: boxes_intersect_def expanded_def rect_add_def)

lemma proximity_graph_mono:
  "t1 \<le> t2 \<Longrightarrow> edges (proximity_graph bboxes t1) \<subseteq> edges (proximity_graph bboxes t2)"
  unfolding edges_def
  using expanded_intersect_mono by (auto simp: proximity_graph_edge)

lemma closed_rtrancl:
  assumes "\<forall>u\<in>S. set (adj_list u) \<subseteq> S" and "(r, u) \<in> (edges adj_list)\<^sup>*" and "r \<in> S"
  shows "u \<in> S"
  using assms(2,3,1)
  by (induction rule: rtrancl_induct) (auto simp: edges_def)

lemma group_components_outcome:
  "(\<exists>ics. component_indices depth bboxes threshold = Inr ics
       \<and> group_components depth bboxes threshold = Inr (map (map (nth bboxes)) ics)
       \<and> distinct (concat ics) \<and> set (concat ics) = {..<length bboxes}
       \<and> (\<forall>c\<in>set ics.
             (\<exists>r\<in>set c. \<forall>u\<in>set c. (r, u) \<in> (edges (proximity_graph bboxes threshold))\<^sup>*)
             \<and> (\<forall>u\<in>set c. set (proximity_graph bboxes threshold u) \<subseteq> set c)))
   \<or> (component_indices depth bboxes threshold = Inl RecursionError
        \<and> group_components depth bboxes threshold = Inl RecursionError
        \<and> depth < length bboxes)"
proof -
  let ?adj = "proximity_graph bboxes threshold"
  have gc: "group_components depth bboxes threshold =
      map_sum id (map (map (nth bboxes))) (traverse depth [0..<length bboxes] ?adj)"
    unfolding group_components_def by (rule traverse_payload)
  from traverse_outcome [OF proximity_graph_range, of depth bboxes threshold] show ?thesis
  proof
    assume "\<exists>ics. traverse depth [0..<length bboxes] ?adj = Inr ics
       \<and> distinct (concat ics) \<and> set (concat ics) = {..<length bboxes}
       \<and> (\<forall>c\<in>set ics. (\<exists>r\<in>set c. \<forall>u\<in>set c. (r, u) \<in> (edges ?adj)\<^sup>*)
             \<and> (sym (edges ?adj) \<longrightarrow> (\<forall>u\<in>set c. set (?adj u) \<subseteq> set c)))"
    then obtain ics where ics: "traverse depth [0..<length bboxes] ?adj = Inr ics"
      and post: "distinct (concat ics)" "set (concat ics) = {..<length bboxes}"
        "\<forall>c\<in>set ics. (\<exists>r\<in>set c. \<forall>u\<in>set c. (r, u) \<in> (edges ?adj)\<^sup>*)
             \<and> (\<forall>u\<in>set c. set (?adj u) \<subseteq> set c)"
      using proximity_graph_sym [of bboxes threshold] by blast
    from ics gc have "group_components depth bboxes threshold = Inr (map (map (nth bboxes)) ics)"
      by simp
    with ics post show ?thesis
      unfolding component_indices_def by blast
  next
    assume fail: "traverse depth [0..<length bboxes] ?adj = Inl RecursionError
      \<and> depth < length bboxes"
    with gc have "group_components depth bboxes threshold = Inl RecursionError"
      by simp
    with fail show ?thesis
      unfolding component_indices_def by blast
  qed
qed

text \<open>
  With room for as many nested calls as there are rectangles the traversal
  returns; and whenever it returns, the components partition the input.
\<close>

lemma partition_given_depth:
  "(length bboxes \<le> depth \<longrightarrow> (\<exists>components. group_components depth bboxes threshold = Inr components))
   \<and> (\<forall>components. group_components depth bboxes threshold = Inr components \<longrightarrow>
        (\<exists>ics. component_indices depth bboxes threshold = Inr ics
           \<and> components = map (map (nth bboxes)) ics
           \<and> distinct (concat ics)
           \<and> set (concat ics) = {..<length bboxes}
           \<and> sum_list (map length components) = length bboxes))"
proof -
  from group_components_outcome [of depth bboxes threshold] show ?thesis
  proof
    assume "\<exists>ics. component_indices depth bboxes threshold = Inr ics
       \<and> group_components depth bboxes threshold = Inr (map (map (nth bboxes)) ics)
       \<and> distinct (concat ics) \<and> set (concat ics) = {..<length bboxes}
       \<and> (\<forall>c\<in>set ics.
             (\<exists>r\<in>set c. \<forall>u\<in>set c. (r, u) \<in> (edges (proximity_graph bboxes threshold))\<^sup>*)
             \<and> (\<forall>u\<in>set c. set (proximity_graph bboxes threshold u) \<subseteq> set c))"
    then obtain ics where
      ics: "component_indices depth bboxes threshold = Inr ics"
      and comps: "group_components depth bboxes threshold = Inr (map (map (nth bboxes)) ics)"
      and part: "distinct (concat ics)" "set (concat ics) = {..<length bboxes}"
      by blast
    have "sum_list (map length (map (map (nth bboxes)) ics)) = length (concat ics)"
      by (simp add: length_concat comp_def)
    also have "\<dots> = card (set (concat ics))"
      using distinct_card [OF part(1)] by (rule sym)
    also have "\<dots> = length bboxes"
      unfolding part(2) by simp
    finally have "sum_list (map length (map (map (nth bboxes)) ics)) = length bboxes" .
    with ics comps part show ?thesis
      by auto
  next
    assume "component_indices depth bboxes threshold = Inl RecursionError
        \<and> group_components depth bboxes threshold = Inl RecursionError
        \<and> depth < length bboxes"
    then show ?thesis
      by auto
  qed
qed

text \<open>
  Whenever the traversal returns at two thresholds \<open>t1 \<le> t2\<close>, every component
  found at \<open>t1\<close> lies within a single component found at \<open>t2\<close>.
\<close>

lemma merging_given_depth:
  assumes le: "t1 \<le> t2"
    and r1: "component_indices depth bboxes t1 = Inr ics1"
    and r2: "component_indices depth bboxes t2 = Inr ics2"
  shows "\<forall>c1\<in>set ics1. \<exists>c2\<in>set ics2. set c1 \<subseteq> set c2 \<and> length c1 \<le> length c2"
proof
  let ?E1 = "edges (proximity_graph bboxes t1)" and ?E2 = "edges (proximity_graph bboxes t2)"
  from group_components_outcome [of depth bboxes t1] r1 have
    1: "distinct (concat ics1)" "set (concat ics1) = {..<length bboxes}"
      "\<forall>c\<in>set ics1. \<exists>r\<in>set c. \<forall>u\<in>set c. (r, u) \<in> ?E1\<^sup>*"
    by auto
  from group_components_outcome [of depth bboxes t2] r2 have
    2: "set (concat ics2) = {..<length bboxes}"
      "\<forall>c\<in>set ics2. \<forall>u\<in>set c. set (proximity_graph bboxes t2 u) \<subseteq> set c"
    by auto
  fix c1 assume c1: "c1 \<in> set ics1"
  from 1(3) c1 obtain r where r: "r \<in> set c1" "\<forall>u\<in>set c1. (r, u) \<in> ?E1\<^sup>*"
    by blast
  from r(1) c1 have "r \<in> set (concat ics1)"
    by auto
  with 1(2) 2(1) have "r \<in> set (concat ics2)"
    by simp
  then obtain c2 where c2: "c2 \<in> set ics2" "r \<in> set c2"
    by auto
  have sub: "set c1 \<subseteq> set c2"
  proof
    fix u assume "u \<in> set c1"
    with r(2) have "(r, u) \<in> ?E1\<^sup>*"
      by blast
    with rtrancl_mono [OF proximity_graph_mono [OF le, of bboxes]] have "(r, u) \<in> ?E2\<^sup>*"
      by blast
    from closed_rtrancl [OF _ this c2(2)] 2(2) c2(1) show "u \<in> set c2"
      by blast
  qed
  from 1(1) c1 have "distinct c1"
    by (auto simp: distinct_concat_iff)
  then have "length c1 = card (set c1)"
    by (simp add: distinct_card)
  also have "\<dots> \<le> card (set c2)"
    using sub by (simp add: card_mono)
  also have "\<dots> \<le> length c2"
    by (rule card_length)
  finally show "\<exists>c2\<in>set ics2. set c1 \<subseteq> set c2 \<and> length c1 \<le> length c2"
    using c2(1) sub by blast
qed

subsection \<open>A chain deeper than the recursion limit\<close>

lemma chain_length: "length (chain n) = n"
  by (simp add: chain_def)

lemma chain_nth:
  "i < n \<Longrightarrow> chain n ! i = \<lparr>x0 = 15 * real i, y0 = 0, x1 = 15 * real i + 10, y1 = 1\<rparr>"
  by (simp add: chain_def)

lemma chain_close: "(15 * real j \<le> 20 + 15 * real i) = (j \<le> Suc i)"
proof (cases "j \<le> Suc i")
  case True
  then have "real j \<le> real (Suc i)"
    by (simp only: of_nat_le_iff)
  with True show ?thesis by simp
next
  case False
  then have "real (Suc (Suc i)) \<le> real j"
    by (simp only: of_nat_le_iff)
  with False show ?thesis by simp
qed

lemma chain_apart: "(15 * real j \<le> 15 * real i + 10) = (j \<le> i)"
proof (cases "j \<le> i")
  case True
  then have "real j \<le> real i"
    by (simp only: of_nat_le_iff)
  with True show ?thesis by simp
next
  case False
  then have "real (Suc i) \<le> real j"
    by (simp only: of_nat_le_iff)
  with False show ?thesis by simp
qed

lemma chain_edge:
  "j \<in> set (proximity_graph (chain n) THRESHOLD i) \<longleftrightarrow>
     i < n \<and> j < n \<and> (j = Suc i \<or> i = Suc j)"
proof (cases "i < n \<and> j < n")
  case False
  then show ?thesis
    by (auto simp: proximity_graph_edge chain_length)
next
  case True
  then have "boxes_intersect (expanded (chain n ! j) THRESHOLD) (expanded (chain n ! i) THRESHOLD)
      \<longleftrightarrow> j \<le> Suc i \<and> i \<le> Suc j"
    by (simp add: chain_nth boxes_intersect_def expanded_def rect_add_def THRESHOLD_def
        chain_close)
  with True show ?thesis
    by (auto simp: proximity_graph_edge chain_length)
qed

lemma chain_no_edge: "proximity_graph (chain n) 0 = (\<lambda>_. [])"
proof
  fix i
  have "j \<notin> set (proximity_graph (chain n) 0 i)" for j
  proof (cases "i < n \<and> j < n")
    case False
    then show ?thesis
      by (auto simp: proximity_graph_edge chain_length)
  next
    case True
    then have "boxes_intersect (expanded (chain n ! j) 0) (expanded (chain n ! i) 0)
        \<longleftrightarrow> j \<le> i \<and> i \<le> j"
      by (simp add: chain_nth boxes_intersect_def expanded_def rect_add_def chain_apart)
    with True show ?thesis
      by (auto simp: proximity_graph_edge chain_length)
  qed
  then show "proximity_graph (chain n) 0 i = []"
    by (cases "proximity_graph (chain n) 0 i") auto
qed

text \<open>
  The loop of \<^verbatim>\<open>dfs\<close> fails as soon as the call on its only unvisited
  neighbour fails.
\<close>

lemma dfs_for_first_unvisited:
  "m \<in> set nbs \<Longrightarrow> \<forall>x\<in>set nbs. x < length visited \<and> (x \<noteq> m \<longrightarrow> visited ! x) \<Longrightarrow>
     \<not> visited ! m \<Longrightarrow> dfs depth b adj_list m (visited, component) = Inl e \<Longrightarrow>
     dfs_for depth b adj_list nbs (visited, component) = Inl e"
proof (induction nbs)
  case Nil
  then show ?case by simp
next
  case (Cons x rest)
  show ?case
  proof (cases "x = m")
    case True
    with Cons.prems show ?thesis by simp
  next
    case False
    with Cons.prems have "m \<in> set rest" "x < length visited" "visited ! x"
      by auto
    with Cons.IH Cons.prems show ?thesis by simp
  qed
qed

text \<open>
  On a graph that joins each position to the next and to no other but the one
  before, a call of \<^verbatim>\<open>dfs\<close> on the first unvisited position \<open>k\<close> needs a nested
  call for every position from \<open>k\<close> on.
\<close>

lemma dfs_chain_fails:
  assumes nxt: "\<forall>k. Suc k < n \<longrightarrow> Suc k \<in> set (adj_list k)"
    and only: "\<forall>k j. j \<in> set (adj_list k) \<longrightarrow> j < n \<and> (j = Suc k \<or> k = Suc j)"
  shows "length visited = n \<Longrightarrow> length b = n \<Longrightarrow> \<forall>i<n. visited ! i \<longleftrightarrow> i < k \<Longrightarrow>
     k + depth < n \<Longrightarrow> dfs depth b adj_list k (visited, component) = Inl RecursionError"
proof (induction depth arbitrary: k visited component)
  case 0
  show ?case by simp
next
  case (Suc depth)
  let ?v = "visited[k := True]" and ?c = "component @ [b ! k]"
  from Suc.prems(4) have k: "k < n" and k1: "Suc k < n" and room: "Suc k + depth < n"
    by simp_all
  from Suc.prems(1,3) have marked: "\<forall>i<n. ?v ! i \<longleftrightarrow> i < Suc k"
    by (auto simp: nth_list_update less_Suc_eq)
  from Suc.prems(1,2) have "dfs depth b adj_list (Suc k) (?v, ?c) = Inl RecursionError"
    by (intro Suc.IH [OF _ _ marked room]) simp_all
  moreover from nxt k1 have "Suc k \<in> set (adj_list k)"
    by blast
  moreover have "\<forall>x\<in>set (adj_list k). x < length ?v \<and> (x \<noteq> Suc k \<longrightarrow> ?v ! x)"
  proof
    fix x assume "x \<in> set (adj_list k)"
    with only have x: "x < n" "x = Suc k \<or> k = Suc x"
      by blast+
    with marked Suc.prems(1) show "x < length ?v \<and> (x \<noteq> Suc k \<longrightarrow> ?v ! x)"
      by auto
  qed
  moreover from marked [rule_format, OF k1] have "\<not> ?v ! Suc k"
    by simp
  ultimately have "dfs_for depth b adj_list (adj_list k) (?v, ?c) = Inl RecursionError"
    by (intro dfs_for_first_unvisited [of "Suc k"]) simp_all
  with k Suc.prems(1,2) show ?case
    by simp
qed

lemma traverse_chain_fails:
  assumes nxt: "\<forall>k. Suc k < n \<longrightarrow> Suc k \<in> set (adj_list k)"
    and only: "\<forall>k j. j \<in> set (adj_list k) \<longrightarrow> j < n \<and> (j = Suc k \<or> k = Suc j)"
    and len: "length b = n" and depth: "depth < n"
  shows "traverse depth b adj_list = Inl RecursionError"
proof -
  from depth have upt: "[0..<n] = 0 # [Suc 0..<n]"
    by (simp add: upt_conv_Cons)
  have "dfs depth b adj_list 0 (replicate n False, []) = Inl RecursionError"
    using depth len by (intro dfs_chain_fails [OF nxt only]) simp_all
  with depth show ?thesis
    unfolding traverse_def len upt by simp
qed

text \<open>
  A row of rectangles at the threshold of \<^verbatim>\<open>extract_vector\<close> cannot be grouped
  when there are more rectangles than nested calls that fit.
\<close>

lemma chain_recursion_error:
  assumes "depth < n"
  shows "group_components depth (chain n) THRESHOLD = Inl RecursionError"
    and "component_indices depth (chain n) THRESHOLD = Inl RecursionError"
    and "group_bounding_boxes depth (chain n) THRESHOLD = Inl RecursionError"
proof -
  let ?adj = "proximity_graph (chain n) THRESHOLD"
  have nxt: "\<forall>k. Suc k < n \<longrightarrow> Suc k \<in> set (?adj k)"
    by (simp add: chain_edge)
  have only: "\<forall>k j. j \<in> set (?adj k) \<longrightarrow> j < n \<and> (j = Suc k \<or> k = Suc j)"
    by (simp add: chain_edge)
  from traverse_chain_fails [OF nxt only chain_length assms]
  show 1: "group_components depth (chain n) THRESHOLD = Inl RecursionError"
    by (simp add: group_components_def)
  from traverse_chain_fails [OF nxt only _ assms, of "[0..<n]"]
  show "component_indices depth (chain n) THRESHOLD = Inl RecursionError"
    by (simp add: component_indices_def chain_length)
  from 1 show "group_bounding_boxes depth (chain n) THRESHOLD = Inl RecursionError"
    by (simp add: group_bounding_boxes_def)
qed

lemma mark_next:
  assumes "k < n"
  shows "(replicate k True @ replicate (n - k) False)[k := True] =
     replicate (Suc k) True @ replicate (n - Suc k) False"
proof -
  from assms obtain m where m: "n - k = Suc m" "n - Suc k = m"
    by (cases "n - k") auto
  show ?thesis
    unfolding m by (simp add: list_update_append replicate_app_Cons_same)
qed

text \<open>Without edges every position is a component of its own, at any depth but 0.\<close>

lemma find_components_no_edge:
  "k \<le> n \<Longrightarrow> length b = n \<Longrightarrow>
     find_components (Suc depth) b (\<lambda>_. []) [k..<n]
       (replicate k True @ replicate (n - k) False) components =
     Inr (components @ map (\<lambda>i. [b ! i]) [k..<n])"
proof (induction "n - k" arbitrary: k components)
  case 0
  then show ?case by simp
next
  case (Suc d)
  then have k: "k < n"
    by simp
  then have upt: "[k..<n] = k # [Suc k..<n]"
    by (simp add: upt_conv_Cons)
  from k have unmarked: "\<not> (replicate k True @ replicate (n - k) False) ! k"
    by (simp add: nth_append)
  from Suc(2) k have "n - Suc k = d" "Suc k \<le> n"
    by simp_all
  from Suc(1) [OF this(1) [symmetric] this(2) Suc(4), of "components @ [[b ! k]]"] k unmarked Suc(4)
  show ?case
    unfolding upt by (simp add: mark_next)
qed

lemma chain_singletons:
  "group_components (Suc depth) (chain n) 0 = Inr (map (\<lambda>r. [r]) (chain n))"
  "group_bounding_boxes (Suc depth) (chain n) 0 = Inr (map Some (chain n))"
proof -
  have "map (\<lambda>i. [chain n ! i]) [0..<n] = map (\<lambda>r. [r]) (chain n)"
    by (rule nth_equalityI) (simp_all add: chain_length)
  with find_components_no_edge [of 0 n "chain n" depth "[]"]
  show 1: "group_components (Suc depth) (chain n) 0 = Inr (map (\<lambda>r. [r]) (chain n))"
    by (simp add: group_components_def traverse_def chain_no_edge chain_length)
  then show "group_bounding_boxes (Suc depth) (chain n) 0 = Inr (map Some (chain n))"
    by (simp add: group_bounding_boxes_def comp_def)
qed

lemma truthy_drawings_kept:
  "\<forall>r\<in>set rs. drawing_truthy (Some r) \<Longrightarrow> drawing_bboxes (map Some rs) = rs"
  unfolding drawing_bboxes_def
  by (induction rs) (simp_all add: List.map_filter_simps)

lemma chain_drawings: "drawing_bboxes (map Some (chain n)) = chain n"
proof (rule truthy_drawings_kept, rule ballI)
  fix r assume "r \<in> set (chain n)"
  then obtain i where "r = \<lparr>x0 = 15 * real i, y0 = 0, x1 = 15 * real i + 10, y1 = 1\<rparr>"
    by (auto simp: chain_def)
  moreover have "15 * real i + 10 \<noteq> 0"
    using of_nat_0_le_iff [of i, where 'a = real] by linarith
  ultimately show "drawing_truthy (Some r)"
    by (simp add: drawing_truthy_def rect_bool_def)
qed

text \<open>
  Claim C2. The components are to partition every input. On a row of 999
  rectangles at the threshold of \<^verbatim>\<open>extract_vector\<close>, fewer than the maximum chunk
  size, so that \<^verbatim>\<open>process_large_drawing\<close> groups them directly, the traversal
  needs 999 nested calls of \<^verbatim>\<open>dfs\<close>. With room for 994, which is what a limit of
  1000 frames leaves below six callers, it raises \<^verbatim>\<open>RecursionError\<close>: no
  component is returned and no position is placed.
\<close>

theorem deep_chain_not_partitioned:
  "length (drawing_bboxes (map Some (chain 999))) < MAX_DRAWINGS
   \<and> group_components 994 (chain 999) THRESHOLD = Inl RecursionError
   \<and> process_large_drawing 994 (map Some (chain 999)) MAX_DRAWINGS THRESHOLD = Inl RecursionError"
proof -
  have "(994::nat) < 999"
    by simp
  from chain_recursion_error(1,3) [OF this] show ?thesis
    by (simp add: process_large_drawing_def chain_drawings chain_length MAX_DRAWINGS_def)
qed

text \<open>
  Claim C5. Every component found at a threshold is to lie within one found
  at a larger threshold. On the row of 999 rectangles, with room for 994
  nested calls, the threshold 0 yields every rectangle as a component of its
  own, while the threshold of \<^verbatim>\<open>extract_vector\<close> raises \<^verbatim>\<open>RecursionError\<close> and
  yields no component that could hold them.
\<close>

theorem deep_chain_not_merged:
  "(0::real) \<le> THRESHOLD
   \<and> group_bounding_boxes 994 (chain 999) 0 = Inr (map Some (chain 999))
   \<and> group_bounding_boxes 994 (chain 999) THRESHOLD = Inl RecursionError"
proof -
  have "(994::nat) < 999"
    by simp
  from chain_recursion_error(3) [OF this] chain_singletons(2) [of 993 999]
  show ?thesis
    by (simp add: THRESHOLD_def)
qed

subsection \<open>Chunking\<close>

text \<open>
  Claim C3, as the code has it. When there are fewer rectangles than the
  maximum chunk size, the chunked pipeline returns what the direct grouping of
  the whole list returns.
\<close>

theorem chunking_equivalence:
  "length (drawing_bboxes drawings) < max_drawings \<Longrightarrow>
     process_large_drawing depth drawings max_drawings threshold =
       group_bounding_boxes depth (drawing_bboxes drawings) threshold"
  by (simp add: process_large_drawing_def)

theorem chunking_equivalence_witness:
  "length (drawing_bboxes
     [Some \<lparr>x0 = 0, y0 = 0, x1 = 1, y1 = 10\<rparr>,
      Some \<lparr>x0 = 0, y0 = 9, x1 = 10, y1 = 10\<rparr>,
      Some \<lparr>x0 = 5, y0 = 0, x1 = 6, y1 = 1\<rparr>]) < 4
   \<and> process_large_drawing 994
     [Some \<lparr>x0 = 0, y0 = 0, x1 = 1, y1 = 10\<rparr>,
      Some \<lparr>x0 = 0, y0 = 9, x1 = 10, y1 = 10\<rparr>,
      Some \<lparr>x0 = 5, y0 = 0, x1 = 6, y1 = 1\<rparr>] 4 0 =
     group_bounding_boxes 994 (drawing_bboxes
     [Some \<lparr>x0 = 0, y0 = 0, x1 = 1, y1 = 10\<rparr>,
      Some \<lparr>x0 = 0, y0 = 9, x1 = 10, y1 = 10\<rparr>,
      Some \<lparr>x0 = 5, y0 = 0, x1 = 6, y1 = 1\<rparr>]) 0"
proof -
  have less: "length (drawing_bboxes
     [Some \<lparr>x0 = 0, y0 = 0, x1 = 1, y1 = 10\<rparr>,
      Some \<lparr>x0 = 0, y0 = 9, x1 = 10, y1 = 10\<rparr>,
      Some \<lparr>x0 = 5, y0 = 0, x1 = 6, y1 = 1\<rparr>]) < 4"
    by code_simp
  from chunking_equivalence [OF less, of 994 0] less show ?thesis
    by (rule conjI [rotated])
qed

text \<open>
  Claim C3 as stated fails when the list is exactly as long as the maximum
  chunk size: the list is then grouped as one chunk and its results are
  grouped once more, which merges two components whose rectangles overlap.
\<close>

theorem chunking_equivalence_counterexample:
  "length (drawing_bboxes
     [Some \<lparr>x0 = 0, y0 = 0, x1 = 1, y1 = 10\<rparr>,
      Some \<lparr>x0 = 0, y0 = 9, x1 = 10, y1 = 10\<rparr>,
      Some \<lparr>x0 = 5, y0 = 0, x1 = 6, y1 = 1\<rparr>]) \<le> 3
   \<and> process_large_drawing 994
     [Some \<lparr>x0 = 0, y0 = 0, x1 = 1, y1 = 10\<rparr>,
      Some \<lparr>x0 = 0, y0 = 9, x1 = 10, y1 = 10\<rparr>,
      Some \<lparr>x0 = 5, y0 = 0, x1 = 6, y1 = 1\<rparr>] 3 0 \<noteq>
     group_bounding_boxes 994 (drawing_bboxes
     [Some \<lparr>x0 = 0, y0 = 0, x1 = 1, y1 = 10\<rparr>,
      Some \<lparr>x0 = 0, y0 = 9, x1 = 10, y1 = 10\<rparr>,
      Some \<lparr>x0 = 5, y0 = 0, x1 = 6, y1 = 1\<rparr>]) 0"
  by code_simp

subsection \<open>Drawings without a usable rectangle\<close>

lemma drawing_bboxes_filter: "map Some (drawing_bboxes drawings) = filter drawing_truthy drawings"
  unfolding drawing_bboxes_def
  by (induction drawings) (auto simp: List.map_filter_simps drawing_truthy_def split: option.splits)

lemma drawing_bboxes_kept:
  "drawing_bboxes (filter drawing_truthy drawings) = drawing_bboxes drawings"
  unfolding drawing_bboxes_def
  by (induction drawings) (auto simp: List.map_filter_simps split: option.splits)

text \<open>
  Claim C8, as the code has it. The drawings left out of grouping are those
  with no rectangle and those whose rectangle has four zero coordinates; all
  others take part, in their order. The drawings left out make no difference
  to the page: it is grouped exactly as it is without them.
\<close>

theorem falsy_drawings_excluded:
  "map Some (drawing_bboxes drawings) =
     filter (\<lambda>d. \<exists>r. d = Some r \<and> \<not> (x0 r = 0 \<and> y0 r = 0 \<and> x1 r = 0 \<and> y1 r = 0)) drawings
   \<and> process_large_drawing depth drawings max_drawings threshold =
     process_large_drawing depth
       (filter (\<lambda>d. \<exists>r. d = Some r \<and> \<not> (x0 r = 0 \<and> y0 r = 0 \<and> x1 r = 0 \<and> y1 r = 0)) drawings)
       max_drawings threshold"
proof -
  have "drawing_truthy =
      (\<lambda>d. \<exists>r. d = Some r \<and> \<not> (x0 r = 0 \<and> y0 r = 0 \<and> x1 r = 0 \<and> y1 r = 0))"
    by (auto simp: drawing_truthy_def rect_bool_def fun_eq_iff split: option.splits)
  with drawing_bboxes_filter [of drawings] drawing_bboxes_kept [of drawings] show ?thesis
    by (simp add: process_large_drawing_def)
qed

text \<open>
  Claim C8 as stated fails: a rectangle with its right edge before its left
  one and a rectangle of zero extent both take part in grouping.
\<close>

theorem falsy_drawings_excluded_counterexample:
  "drawing_bboxes
     [Some \<lparr>x0 = 3, y0 = 3, x1 = 1, y1 = 1\<rparr>, Some \<lparr>x0 = 1, y0 = 1, x1 = 1, y1 = 1\<rparr>, None,
      Some \<lparr>x0 = 0, y0 = 0, x1 = 0, y1 = 0\<rparr>] =
     [\<lparr>x0 = 3, y0 = 3, x1 = 1, y1 = 1\<rparr>, \<lparr>x0 = 1, y0 = 1, x1 = 1, y1 = 1\<rparr>]
   \<and> \<not> well_formed \<lparr>x0 = 3, y0 = 3, x1 = 1, y1 = 1\<rparr>
   \<and> x0 \<lparr>x0 = 1, y0 = 1, x1 = 1, y1 = 1\<rparr> = x1 \<lparr>x0 = 1, y0 = 1, x1 = 1, y1 = 1\<rparr>"
  by code_simp

subsection \<open>The text of the document\<close>

lemma join_two: "join sep [a, b] = a @ sep @ b"
  by simp

lemma text_for_concat:
  "text_for t page_texts = t @ concat (map (\<lambda>p. '' '' @ strip p) page_texts)"
  by (induction page_texts arbitrary: t) simp_all

lemma join_concat:
  "page_texts \<noteq> [] \<Longrightarrow> sep @ join sep page_texts = concat (map (\<lambda>p. sep @ p) page_texts)"
  by (induction sep page_texts rule: join.induct) simp_all

text \<open>
  Claim C9, as the code has it. The text written ends with the texts of the
  pages, each without its leading and trailing whitespace, in page order and
  joined by one space; nothing follows the text of the last page.
\<close>

theorem written_text_stripped_pages:
  "suffix (join '' '' (map strip page_texts)) (written_text page_texts)"
proof (cases page_texts)
  case Nil
  then show ?thesis by (simp add: written_text_def)
next
  case (Cons p ps)
  then have "written_text page_texts = '' '' @ join '' '' (map strip page_texts)"
    using join_concat [of "map strip page_texts" "'' ''"]
    by (simp add: written_text_def text_for_concat comp_def)
  then show ?thesis
    by (simp add: suffix_def)
qed

text \<open>
  Claim C9 as stated fails: for two pages with the texts \<open>a \<close> and \<open>b\<close> the text
  written is not the two texts joined by one space.
\<close>

theorem written_text_counterexample:
  "written_text [''a '', ''b''] \<noteq> join '' '' [''a '', ''b'']"
  by code_simp

subsection \<open>A rendering that fails\<close>

lemma extract_vector_for_append:
  "extract_vector_for intersects md5 pg page_num min_size max_size (xs @ ys) files =
     (case extract_vector_for intersects md5 pg page_num min_size max_size xs files of
        (files', None) \<Rightarrow> extract_vector_for intersects md5 pg page_num min_size max_size ys files'
      | (files', Some e) \<Rightarrow> (files', Some e))"
proof (induction xs arbitrary: files)
  case Nil
  then show ?case by simp
next
  case (Cons x xs)
  obtain group_num grp where x: "x = (group_num, grp)"
    by (cases x)
  show ?case
    unfolding x by (simp add: Cons split: option.splits sum.splits)
qed

text \<open>
  Claim C7, as the code has it. When the rendering of a group that passed the
  filter fails, the loop over the groups ends with that failure: the files
  written for the groups before it remain, and neither this group nor any
  group after it gets a file.
\<close>

theorem render_failure_propagates:
  "extract_vector_for intersects md5 pg page_num min_size max_size before files = (files', None) \<Longrightarrow>
   figure_bbox intersects (text_blocks pg) grp = Some fb \<Longrightarrow>
   size_filter min_size max_size fb \<Longrightarrow>
   get_pixmap pg fb = Inl e \<Longrightarrow>
   extract_vector_for intersects md5 pg page_num min_size max_size
     (before @ (group_num, Some grp) # rest) files = (files', Some e)"
  by (simp add: extract_vector_for_append)

theorem render_failure_propagates_witness:
  "extract_vector_for boxes_intersect (\<lambda>b. ''0123456789abcdef'')
       \<lparr>page_width = 100, page_height = 100, get_drawings = [], text_blocks = [],
        get_pixmap = (\<lambda>clip. if x0 clip = 50 then Inl RenderError else Inr ''png'')\<rparr> 0 500 3000
       [(0, Some \<lparr>x0 = 0, y0 = 0, x1 = 30, y1 = 30\<rparr>)] [] =
     ([(''page0_fig0_hash01234567.png'', ''png'')], None)
   \<and> figure_bbox boxes_intersect (text_blocks
       \<lparr>page_width = 100, page_height = 100, get_drawings = [], text_blocks = [],
        get_pixmap = (\<lambda>clip. if x0 clip = 50 then Inl RenderError else Inr ''png'')\<rparr>)
       \<lparr>x0 = 50, y0 = 50, x1 = 80, y1 = 80\<rparr> = Some \<lparr>x0 = 50, y0 = 50, x1 = 80, y1 = 80\<rparr>
   \<and> size_filter 500 3000 \<lparr>x0 = 50, y0 = 50, x1 = 80, y1 = 80\<rparr>
   \<and> get_pixmap
       \<lparr>page_width = 100, page_height = 100, get_drawings = [], text_blocks = [],
        get_pixmap = (\<lambda>clip. if x0 clip = 50 then Inl RenderError else Inr ''png'')\<rparr>
       \<lparr>x0 = 50, y0 = 50, x1 = 80, y1 = 80\<rparr> = Inl RenderError
   \<and> extract_vector_for boxes_intersect (\<lambda>b. ''0123456789abcdef'')
       \<lparr>page_width = 100, page_height = 100, get_drawings = [], text_blocks = [],
        get_pixmap = (\<lambda>clip. if x0 clip = 50 then Inl RenderError else Inr ''png'')\<rparr> 0 500 3000
       ([(0, Some \<lparr>x0 = 0, y0 = 0, x1 = 30, y1 = 30\<rparr>)] @ (1, Some \<lparr>x0 = 50, y0 = 50, x1 = 80, y1 = 80\<rparr>) # [(2, Some \<lparr>x0 = 0, y0 = 50, x1 = 30, y1 = 80\<rparr>)]) [] =
     ([(''page0_fig0_hash01234567.png'', ''png'')], Some RenderError)"
proof -
  have 1: "extract_vector_for boxes_intersect (\<lambda>b. ''0123456789abcdef'')
       \<lparr>page_width = 100, page_height = 100, get_drawings = [], text_blocks = [],
        get_pixmap = (\<lambda>clip. if x0 clip = 50 then Inl RenderError else Inr ''png'')\<rparr> 0 500 3000
       [(0, Some \<lparr>x0 = 0, y0 = 0, x1 = 30, y1 = 30\<rparr>)] [] =
     ([(''page0_fig0_hash01234567.png'', ''png'')], None)"
    by code_simp
  have 2: "figure_bbox boxes_intersect (text_blocks
       \<lparr>page_width = 100, page_height = 100, get_drawings = [], text_blocks = [],
        get_pixmap = (\<lambda>clip. if x0 clip = 50 then Inl RenderError else Inr ''png'')\<rparr>)
       \<lparr>x0 = 50, y0 = 50, x1 = 80, y1 = 80\<rparr> = Some \<lparr>x0 = 50, y0 = 50, x1 = 80, y1 = 80\<rparr>"
    by code_simp
  have 3: "size_filter 500 3000 \<lparr>x0 = 50, y0 = 50, x1 = 80, y1 = 80\<rparr>"
    by code_simp
  have 4: "get_pixmap
       \<lparr>page_width = 100, page_height = 100, get_drawings = [], text_blocks = [],
        get_pixmap = (\<lambda>clip. if x0 clip = 50 then Inl RenderError else Inr ''png'')\<rparr>
       \<lparr>x0 = 50, y0 = 50, x1 = 80, y1 = 80\<rparr> = Inl RenderError"
    by code_simp
  from render_failure_propagates [OF 1 2 3 4, of 1 "[(2, Some \<lparr>x0 = 0, y0 = 50, x1 = 30, y1 = 80\<rparr>)]"] 1 2 3 4
  show ?thesis by blast
qed

text \<open>
  Claim C7 as stated fails: on a page with two groups that pass the filter,
  where the rendering of the first fails and that of the second would succeed,
  \<^verbatim>\<open>extract_vector\<close> ends with the failure and writes no file.
\<close>

theorem render_failure_counterexample:
  "extract_vector 994 boxes_intersect (\<lambda>b. ''0123456789abcdef'')
     \<lparr>page_width = 100, page_height = 100,
        get_drawings = [Some \<lparr>x0 = 0, y0 = 0, x1 = 30, y1 = 30\<rparr>, Some \<lparr>x0 = 50, y0 = 50, x1 = 80, y1 = 80\<rparr>],
        text_blocks = [],
        get_pixmap = (\<lambda>clip. if x0 clip = 0 then Inl RenderError else Inr ''png'')\<rparr> 0 [] =
     ([], Some RenderError)"
  by code_simp

end
